theory Spec2Isabelle
  imports Main "HOL-Library.Multiset" "HOL-Library.List_Lexorder"
begin

unbundle bit_operations_syntax

section \<open>Minimum run length\<close>

text \<open>
  The threshold constant of \<^verbatim>\<open>timsort_detail\<close>.
\<close>

definition MIN_MERGE :: int where
  "MIN_MERGE = 32"

text \<open>
  The loop of \<^verbatim>\<open>minRunLength\<close>: while \<open>n\<close> is at least \<open>MIN_MERGE\<close> the lowest bit
  of \<open>n\<close> is or-ed into \<open>r\<close> and \<open>n\<close> is shifted right by one. The C++ \<^verbatim>\<open>int\<close> is
  modelled by \<open>int\<close>: the loop only makes \<open>n\<close> smaller and \<open>n + r\<close> is below 33 when the
  loop has run, so no operation can overflow.
\<close>

function minRunLength_loop :: "int \<Rightarrow> int \<Rightarrow> int" where
  "minRunLength_loop r n =
     (if n \<ge> MIN_MERGE then minRunLength_loop (r OR (n AND 1)) (drop_bit 1 n)
      else n + r)"
  by pat_completeness auto
termination
  by (relation "measure (\<lambda>(r, n). nat n)") (auto simp: MIN_MERGE_def drop_bit_eq_div)

declare minRunLength_loop.simps [simp del]

definition minRunLength :: "int \<Rightarrow> int" where
  "minRunLength n = minRunLength_loop 0 n"

section \<open>Ranges of an array and the library algorithms\<close>

text \<open>
  A random-access range is modelled by the list of all cells of the vector together with
  indices into it: the iterator \<^verbatim>\<open>first + i\<close> is the index \<open>i\<close>. All indices and
  lengths of the program are non-negative, so they are natural numbers here.
  \<open>slice xs i j\<close> is the content of the half-open range \<open>[i, j)\<close>.
\<close>

definition slice :: "'a list \<Rightarrow> nat \<Rightarrow> nat \<Rightarrow> 'a list" where
  "slice xs i j = take (j - i) (drop i xs)"

text \<open>
  \<^verbatim>\<open>std::upper_bound(first, last, value, comp)\<close>: the binary search of the standard
  library, halving the length of the searched range. The last argument and the second
  component of the result count the calls of the predicate \<open>cmp\<close> (the code's \<^verbatim>\<open>comp\<close>).
\<close>

function upper_bound_loop ::
  "('a \<Rightarrow> 'a \<Rightarrow> bool) \<Rightarrow> 'a list \<Rightarrow> 'a \<Rightarrow> nat \<Rightarrow> nat \<Rightarrow> nat \<Rightarrow> nat \<times> nat" where
  "upper_bound_loop cmp xs val first len c =
     (if 0 < len then
        (let half = len div 2; middle = first + half in
         if cmp val (xs ! middle) then upper_bound_loop cmp xs val first half (c + 1)
         else upper_bound_loop cmp xs val (middle + 1) (len - half - 1) (c + 1))
      else (first, c))"
  by pat_completeness auto
termination
  by (relation "measure (\<lambda>(cmp, xs, val, first, len, c). len)") auto

declare upper_bound_loop.simps [simp del]

definition upper_bound ::
  "('a \<Rightarrow> 'a \<Rightarrow> bool) \<Rightarrow> 'a list \<Rightarrow> nat \<Rightarrow> nat \<Rightarrow> 'a \<Rightarrow> nat \<Rightarrow> nat \<times> nat" where
  "upper_bound cmp xs first last' val c = upper_bound_loop cmp xs val first (last' - first) c"

text \<open>
  Moving an element. The element type and its move operations are a parameter of the
  template, so the model takes them as the parameter \<open>mv\<close>: \<open>mv x\<close> is the value an
  object holds after the value \<open>x\<close> has been moved out of it. For \<^verbatim>\<open>int\<close> and every other
  type whose move is a copy, \<open>mv x = x\<close>; for \<^verbatim>\<open>std::string\<close> the usual implementations
  leave the empty string. A move assignment \<^verbatim>\<open>*d = std::move(*s)\<close> stores the value of
  \<^verbatim>\<open>*s\<close> in \<^verbatim>\<open>*d\<close> and leaves \<open>mv\<close> of it in \<^verbatim>\<open>*s\<close>.

  \<^verbatim>\<open>std::move_backward(first, last, d_last)\<close> inside one vector: the elements of
  \<open>[first, last)\<close> are moved, last one first, into the range that ends at \<open>d_last\<close>.
\<close>

function move_backward :: "('a \<Rightarrow> 'a) \<Rightarrow> 'a list \<Rightarrow> nat \<Rightarrow> nat \<Rightarrow> nat \<Rightarrow> 'a list" where
  "move_backward mv xs first last' d_last =
     (if first < last'
      then move_backward mv
             ((xs[d_last - 1 := xs ! (last' - 1)])[last' - 1 := mv (xs ! (last' - 1))])
             first (last' - 1) (d_last - 1)
      else xs)"
  by pat_completeness auto
termination
  by (relation "measure (\<lambda>(mv, xs, first, last', d_last). last' - first)") auto

declare move_backward.simps [simp del]

text \<open>
  \<^verbatim>\<open>std::move(first, last, d_first)\<close> from the vector \<open>src\<close> into another vector \<open>dst\<close>:
  \<open>move_range\<close> is \<open>dst\<close> after the call, where the elements of \<open>[first, last)\<close> have
  replaced the cells from \<open>d_first\<close> on, and \<open>moved_out\<close> is \<open>src\<close> after the call, where
  the cells of \<open>[first, last)\<close> are moved-from.
\<close>

definition move_range :: "'a list \<Rightarrow> nat \<Rightarrow> nat \<Rightarrow> 'a list \<Rightarrow> nat \<Rightarrow> 'a list" where
  "move_range src first last' dst d_first =
     take d_first dst @ slice src first last' @ drop (d_first + (last' - first)) dst"

definition moved_out :: "('a \<Rightarrow> 'a) \<Rightarrow> 'a list \<Rightarrow> nat \<Rightarrow> nat \<Rightarrow> 'a list" where
  "moved_out mv src first last' =
     take first src @ map mv (slice src first last') @ drop (max first last') src"

text \<open>
  \<^verbatim>\<open>std::reverse(first, last)\<close>: the elements of \<open>[first, last)\<close> in reverse order. It
  swaps the elements, so no cell is left moved-from.
\<close>

definition reverse_range :: "'a list \<Rightarrow> nat \<Rightarrow> nat \<Rightarrow> 'a list" where
  "reverse_range xs first last' = take first xs @ rev (slice xs first last') @ drop last' xs"

section \<open>Binary insertion sort\<close>

text \<open>
  \<^verbatim>\<open>binaryInsertionSort(left, right, comp)\<close>. The loop variable \<open>it\<close> runs from
  \<open>left + 1\<close> to \<open>right\<close>; the state is the vector and the comparison counter.
  \<^verbatim>\<open>auto key = std::move(*it)\<close> leaves the cell at \<open>it\<close> moved-from; the search reads the
  cells before \<open>it\<close>; and the key is written back only when \<open>pos\<close> differs from \<open>it\<close>.
\<close>

function binaryInsertionSort_loop ::
  "('a \<Rightarrow> 'a) \<Rightarrow> ('a \<Rightarrow> 'a \<Rightarrow> bool) \<Rightarrow> nat \<Rightarrow> nat \<Rightarrow> nat \<Rightarrow> 'a list \<times> nat
     \<Rightarrow> 'a list \<times> nat" where
  "binaryInsertionSort_loop mv cmp left right it (xs, c) =
     (if it < right then
        (let key = xs ! it;
             xs0 = xs[it := mv key];
             (pos, c1) = upper_bound cmp xs0 left it key c;
             xs1 = (if pos \<noteq> it then (move_backward mv xs0 pos it (it + 1))[pos := key] else xs0)
         in binaryInsertionSort_loop mv cmp left right (it + 1) (xs1, c1))
      else (xs, c))"
  by pat_completeness auto
termination
  by (relation "measure (\<lambda>(mv, cmp, left, right, it, s). right - it)") auto

declare binaryInsertionSort_loop.simps [simp del]

definition binaryInsertionSort ::
  "('a \<Rightarrow> 'a) \<Rightarrow> ('a \<Rightarrow> 'a \<Rightarrow> bool) \<Rightarrow> nat \<Rightarrow> nat \<Rightarrow> 'a list \<times> nat \<Rightarrow> 'a list \<times> nat" where
  "binaryInsertionSort mv cmp left right s = binaryInsertionSort_loop mv cmp left right (left + 1) s"

section \<open>Merging two adjacent runs\<close>

text \<open>
  The \<^verbatim>\<open>while\<close> loop of \<^verbatim>\<open>mergeRuns\<close>. \<open>left\<close> is a cursor into the buffer (an index,
  \<^verbatim>\<open>buffer.begin()\<close> being 0), \<open>right\<close> and \<open>dest\<close> are cursors into the vector. The
  cursors start at or below their ends and move up by one, so the tests
  \<^verbatim>\<open>left != leftEnd\<close> and \<^verbatim>\<open>right != rightEnd\<close> are the tests \<open>left < leftEnd\<close> and
  \<open>right < rightEnd\<close>. Each pass moves one element to \<open>dest\<close> and leaves its source, in
  the buffer or in the vector, moved-from. The result is the vector, the buffer, the two
  cursors the code goes on with, and the comparison counter.
\<close>

function mergeRuns_loop ::
  "('a \<Rightarrow> 'a) \<Rightarrow> ('a \<Rightarrow> 'a \<Rightarrow> bool) \<Rightarrow> nat \<Rightarrow> nat \<Rightarrow> 'a list \<Rightarrow> 'a list \<Rightarrow> nat \<Rightarrow> nat \<Rightarrow> nat \<Rightarrow> nat
     \<Rightarrow> 'a list \<times> 'a list \<times> nat \<times> nat \<times> nat" where
  "mergeRuns_loop mv cmp leftEnd rightEnd arr buffer left right dest c =
     (if left < leftEnd \<and> right < rightEnd then
        (if cmp (buffer ! left) (arr ! right)
         then mergeRuns_loop mv cmp leftEnd rightEnd
                (arr[dest := buffer ! left]) (buffer[left := mv (buffer ! left)])
                (left + 1) right (dest + 1) (c + 1)
         else mergeRuns_loop mv cmp leftEnd rightEnd
                ((arr[dest := arr ! right])[right := mv (arr ! right)]) buffer
                left (right + 1) (dest + 1) (c + 1))
      else (arr, buffer, left, dest, c))"
  by pat_completeness auto
termination
  by (relation "measure (\<lambda>(mv, cmp, leftEnd, rightEnd, arr, buffer, left, right, dest, c).
                   (leftEnd - left) + (rightEnd - right))") auto

declare mergeRuns_loop.simps [simp del]

text \<open>
  \<^verbatim>\<open>mergeRuns(start, mid, end, comp, buffer)\<close> on the vector \<open>arr\<close>. The buffer is a
  vector of its own. The code resizes it when it is shorter than the left run and then
  moves the left run to its front: the cells added by the resize are all overwritten by
  the move, so the model lets the move extend the buffer. The move leaves the cells of
  the left run in the vector moved-from, and the final move of the rest of the buffer
  leaves those buffer cells moved-from.
\<close>

fun mergeRuns ::
  "('a \<Rightarrow> 'a) \<Rightarrow> ('a \<Rightarrow> 'a \<Rightarrow> bool) \<Rightarrow> nat \<Rightarrow> nat \<Rightarrow> nat \<Rightarrow> 'a list \<times> 'a list \<times> nat
     \<Rightarrow> 'a list \<times> 'a list \<times> nat" where
  "mergeRuns mv cmp start mid end' (arr, buffer, c) =
     (let leftSize = mid - start;
          buffer1 = move_range arr start mid buffer 0;
          arr0 = moved_out mv arr start mid;
          (arr1, buffer2, left, dest, c1) =
             mergeRuns_loop mv cmp leftSize end' arr0 buffer1 0 mid start c;
          arr2 = (if left \<noteq> leftSize then move_range buffer2 left leftSize arr1 dest else arr1);
          buffer3 = (if left \<noteq> leftSize then moved_out mv buffer2 left leftSize else buffer2)
      in (arr2, buffer3, c1))"

declare mergeRuns.simps [simp del]

section \<open>The driver\<close>

record Run =
  run_start :: nat
  run_length :: nat

text \<open>
  The two loops that extend a run from \<open>start\<close>: the descending one goes on while the
  next element is less than its predecessor, the ascending one while it is not.
  \<open>cmp\<close> is called only when \<open>start + runLen < n\<close> holds.
\<close>

function descending_run ::
  "('a \<Rightarrow> 'a \<Rightarrow> bool) \<Rightarrow> 'a list \<Rightarrow> nat \<Rightarrow> nat \<Rightarrow> nat \<Rightarrow> nat \<Rightarrow> nat \<times> nat" where
  "descending_run cmp xs n start runLen c =
     (if start + runLen < n then
        (if cmp (xs ! (start + runLen)) (xs ! (start + runLen - 1))
         then descending_run cmp xs n start (runLen + 1) (c + 1)
         else (runLen, c + 1))
      else (runLen, c))"
  by pat_completeness auto
termination
  by (relation "measure (\<lambda>(cmp, xs, n, start, runLen, c). n - (start + runLen))") auto

declare descending_run.simps [simp del]

function ascending_run ::
  "('a \<Rightarrow> 'a \<Rightarrow> bool) \<Rightarrow> 'a list \<Rightarrow> nat \<Rightarrow> nat \<Rightarrow> nat \<Rightarrow> nat \<Rightarrow> nat \<times> nat" where
  "ascending_run cmp xs n start runLen c =
     (if start + runLen < n then
        (if \<not> cmp (xs ! (start + runLen)) (xs ! (start + runLen - 1))
         then ascending_run cmp xs n start (runLen + 1) (c + 1)
         else (runLen, c + 1))
      else (runLen, c))"
  by pat_completeness auto
termination
  by (relation "measure (\<lambda>(cmp, xs, n, start, runLen, c). n - (start + runLen))") auto

declare ascending_run.simps [simp del]

text \<open>
  The run detector: the body of the outer loop of \<^verbatim>\<open>timsortImpl\<close> from
  \<^verbatim>\<open>int runLen = 1\<close> to the end of the direction test. It returns the vector (changed
  by the reversal of a descending run), the run length and the counter.
\<close>

fun detectRun ::
  "('a \<Rightarrow> 'a \<Rightarrow> bool) \<Rightarrow> nat \<Rightarrow> nat \<Rightarrow> 'a list \<times> nat \<Rightarrow> 'a list \<times> nat \<times> nat" where
  "detectRun cmp n start (xs, c) =
     (if start + 1 < n then
        (if cmp (xs ! (start + 1)) (xs ! start) then
           (let (runLen, c1) = descending_run cmp xs n start 1 (c + 1)
            in (reverse_range xs start (start + runLen), runLen, c1))
         else
           (let (runLen, c1) = ascending_run cmp xs n start 1 (c + 1)
            in (xs, runLen, c1)))
      else (xs, 1, c))"

declare detectRun.simps [simp del]

text \<open>
  The run detector followed by the extension of a run shorter than \<open>minRun\<close>.
\<close>

fun nextRun ::
  "('a \<Rightarrow> 'a) \<Rightarrow> ('a \<Rightarrow> 'a \<Rightarrow> bool) \<Rightarrow> nat \<Rightarrow> nat \<Rightarrow> nat \<Rightarrow> 'a list \<times> nat \<Rightarrow> 'a list \<times> nat \<times> nat" where
  "nextRun mv cmp n minRun start (xs, c) =
     (let (xs1, runLen, c1) = detectRun cmp n start (xs, c) in
      if runLen < minRun then
        (let force = min minRun (n - start);
             (xs2, c2) = binaryInsertionSort mv cmp start (start + force) (xs1, c1)
         in (xs2, force, c2))
      else (xs1, runLen, c1))"

declare nextRun.simps [simp del]

text \<open>
  The merge decision on the run stack. The stack is the vector \<^verbatim>\<open>runStack\<close>: its top is
  the last element.
\<close>

definition shouldMerge :: "Run list \<Rightarrow> bool" where
  "shouldMerge runStack =
     (let size' = length runStack;
          shouldMerge1 = (size' \<ge> 3 \<and>
             run_length (runStack ! (size' - 3))
               \<le> run_length (runStack ! (size' - 2)) + run_length (runStack ! (size' - 1)))
      in if \<not> shouldMerge1 \<and> size' \<ge> 2
         then run_length (runStack ! (size' - 2)) \<le> run_length (runStack ! (size' - 1))
         else shouldMerge1)"

text \<open>
  One merge of the two topmost runs: both are popped, their ranges are merged, and one
  run with the start of the lower and the sum of the lengths is pushed. The state is the
  vector, the buffer, the run stack and the comparison counter.
\<close>

type_synonym 'a sort_state = "'a list \<times> 'a list \<times> Run list \<times> nat"

fun mergeTop :: "('a \<Rightarrow> 'a) \<Rightarrow> ('a \<Rightarrow> 'a \<Rightarrow> bool) \<Rightarrow> 'a sort_state \<Rightarrow> 'a sort_state" where
  "mergeTop mv cmp (xs, buffer, runStack, c) =
     (let run2 = last runStack; runStack1 = butlast runStack;
          run1 = last runStack1; runStack2 = butlast runStack1;
          (xs1, buffer1, c1) =
             mergeRuns mv cmp (run_start run1) (run_start run1 + run_length run1)
               (run_start run1 + run_length run1 + run_length run2) (xs, buffer, c)
      in (xs1, buffer1,
          runStack2 @ [\<lparr>run_start = run_start run1, run_length = run_length run1 + run_length run2\<rparr>],
          c1))"

text \<open>
  The loop that follows each push.
\<close>

function mergeCollapse :: "('a \<Rightarrow> 'a) \<Rightarrow> ('a \<Rightarrow> 'a \<Rightarrow> bool) \<Rightarrow> 'a sort_state \<Rightarrow> 'a sort_state" where
  "mergeCollapse mv cmp (xs, buffer, runStack, c) =
     (if length runStack > 1 then
        (if shouldMerge runStack then mergeCollapse mv cmp (mergeTop mv cmp (xs, buffer, runStack, c))
         else (xs, buffer, runStack, c))
      else (xs, buffer, runStack, c))"
  by pat_completeness auto
termination
  by (relation "measure (\<lambda>(mv, cmp, xs, buffer, runStack, c). length runStack)")
     (auto simp: Let_def split: prod.splits)

declare mergeCollapse.simps [simp del]

text \<open>
  The final loop, which merges until one run is left.
\<close>

function mergeForce :: "('a \<Rightarrow> 'a) \<Rightarrow> ('a \<Rightarrow> 'a \<Rightarrow> bool) \<Rightarrow> 'a sort_state \<Rightarrow> 'a sort_state" where
  "mergeForce mv cmp (xs, buffer, runStack, c) =
     (if length runStack > 1 then mergeForce mv cmp (mergeTop mv cmp (xs, buffer, runStack, c))
      else (xs, buffer, runStack, c))"
  by pat_completeness auto
termination
  by (relation "measure (\<lambda>(mv, cmp, xs, buffer, runStack, c). length runStack)")
     (auto simp: Let_def split: prod.splits)

declare mergeForce.simps [simp del]

text \<open>
  A run is at least one element long and ends inside the first \<open>n\<close> cells: this is what
  makes the outer loop of the driver advance.
\<close>

lemma descending_run_bounds:
  "runLen \<le> fst (descending_run cmp xs n start runLen c) \<and>
   (start + runLen \<le> n \<longrightarrow> start + fst (descending_run cmp xs n start runLen c) \<le> n)"
proof (induction cmp xs n start runLen c rule: descending_run.induct)
  case (1 cmp xs n start runLen c)
  then show ?case by (subst (1 2) descending_run.simps) auto
qed

lemma ascending_run_bounds:
  "runLen \<le> fst (ascending_run cmp xs n start runLen c) \<and>
   (start + runLen \<le> n \<longrightarrow> start + fst (ascending_run cmp xs n start runLen c) \<le> n)"
proof (induction cmp xs n start runLen c rule: ascending_run.induct)
  case (1 cmp xs n start runLen c)
  then show ?case by (subst (1 2) ascending_run.simps) auto
qed

lemma detectRun_bounds:
  assumes "start < n" "detectRun cmp n start (xs, c) = (ys, runLen, c')"
  shows "1 \<le> runLen \<and> start + runLen \<le> n"
  using assms descending_run_bounds[of 1 cmp xs n start "c + 1"]
    ascending_run_bounds[of 1 cmp xs n start "c + 1"]
  by (auto simp: detectRun.simps split: if_splits prod.splits)

lemma nextRun_bounds:
  assumes "start < n" "nextRun mv cmp n minRun start (xs, c) = (ys, runLen, c')"
  shows "1 \<le> runLen \<and> start + runLen \<le> n"
proof -
  obtain xs1 l1 c1 where d: "detectRun cmp n start (xs, c) = (xs1, l1, c1)"
    by (cases "detectRun cmp n start (xs, c)") auto
  from detectRun_bounds[OF assms(1) d] have l1: "1 \<le> l1" "start + l1 \<le> n" by auto
  show ?thesis
  proof (cases "l1 < minRun")
    case True
    with assms(2) d have "runLen = min minRun (n - start)"
      by (auto simp: nextRun.simps Let_def split: prod.splits)
    with True l1 assms(1) show ?thesis by auto
  next
    case False
    with assms(2) d have "runLen = l1" by (auto simp: nextRun.simps)
    with l1 show ?thesis by simp
  qed
qed

text \<open>
  The outer loop of \<^verbatim>\<open>timsortImpl\<close>: detect and extend a run from \<open>start\<close>, push it,
  run the merge loop, go on at \<open>start + runLen\<close>.
\<close>

function scanRuns ::
  "('a \<Rightarrow> 'a) \<Rightarrow> ('a \<Rightarrow> 'a \<Rightarrow> bool) \<Rightarrow> nat \<Rightarrow> nat \<Rightarrow> nat \<Rightarrow> 'a sort_state \<Rightarrow> 'a sort_state" where
  "scanRuns mv cmp n minRun start (xs, buffer, runStack, c) =
     (if start < n then
        (let (xs1, runLen, c1) = nextRun mv cmp n minRun start (xs, c);
             s = mergeCollapse mv cmp
                   (xs1, buffer, runStack @ [\<lparr>run_start = start, run_length = runLen\<rparr>], c1)
         in scanRuns mv cmp n minRun (start + runLen) s)
      else (xs, buffer, runStack, c))"
  by pat_completeness auto
termination
proof (relation "measure (\<lambda>(mv, cmp, n, minRun, start, s). n - start)", goal_cases)
  case 1
  show ?case by simp
next
  case (2 mv cmp n minRun start xs buffer runStack c x xs1 y runLen c1 s)
  then have "nextRun mv cmp n minRun start (xs, c) = (xs1, runLen, c1)" by simp
  from nextRun_bounds[OF 2(1) this] 2(1) show ?case by auto
qed

declare scanRuns.simps [simp del]

text \<open>
  The cast \<^verbatim>\<open>static_cast<int>(std::distance(first, last))\<close>: the distance is kept modulo
  \<open>2^32\<close> and read as a signed 32-bit number. Below \<open>2^31\<close> the value is unchanged.
\<close>

definition to_int32 :: "int \<Rightarrow> int" where
  "to_int32 k = (k + 2 ^ 31) mod 2 ^ 32 - 2 ^ 31"

text \<open>
  \<^verbatim>\<open>timsortImpl(first, last, comp)\<close> on the vector \<open>xs\<close>, and the public \<^verbatim>\<open>timsort\<close>,
  which only calls it. \<open>n\<close> is the length of the vector after the cast to \<^verbatim>\<open>int\<close>. Past
  the test \<^verbatim>\<open>n <= 1\<close> every index and length the code computes lies between 0 and
  \<open>n\<close>, so none of its additions overflows and they are natural numbers here. The
  result is the vector after the call and the number of calls of the predicate.
\<close>

definition timsortImpl :: "('a \<Rightarrow> 'a) \<Rightarrow> ('a \<Rightarrow> 'a \<Rightarrow> bool) \<Rightarrow> 'a list \<Rightarrow> 'a list \<times> nat" where
  "timsortImpl mv cmp xs =
     (let n = to_int32 (int (length xs)) in
      if n \<le> 1 then (xs, 0)
      else
        (let minRun = minRunLength n;
             (xs1, buffer1, runStack1, c1) =
                mergeForce mv cmp (scanRuns mv cmp (nat n) (nat minRun) 0 (xs, [], [], 0))
         in (xs1, c1)))"

definition timsort :: "('a \<Rightarrow> 'a) \<Rightarrow> ('a \<Rightarrow> 'a \<Rightarrow> bool) \<Rightarrow> 'a list \<Rightarrow> 'a list \<times> nat" where
  "timsort mv cmp xs = timsortImpl mv cmp xs"

section \<open>The driver as a transition system\<close>

text \<open>
  The control flow of \<^verbatim>\<open>timsortImpl\<close> after the test \<^verbatim>\<open>n <= 1\<close>, one transition for
  each pass through a loop head. \<open>Scan start\<close> is the head of the outer loop,
  \<open>Collapse start runLen\<close> the head of the merge loop after the push of the run
  \<open>{start, runLen}\<close>, \<open>Drain\<close> the head of the final loop.
\<close>

datatype pc = Scan nat | Collapse nat nat | Drain

inductive timsort_step ::
  "('a \<Rightarrow> 'a) \<Rightarrow> ('a \<Rightarrow> 'a \<Rightarrow> bool) \<Rightarrow> nat \<Rightarrow> nat
     \<Rightarrow> pc \<times> 'a sort_state \<Rightarrow> pc \<times> 'a sort_state \<Rightarrow> bool"
  for mv :: "'a \<Rightarrow> 'a" and cmp :: "'a \<Rightarrow> 'a \<Rightarrow> bool" and n :: nat and minRun :: nat where
  push: "start < n \<Longrightarrow> nextRun mv cmp n minRun start (xs, c) = (xs1, runLen, c1) \<Longrightarrow>
     timsort_step mv cmp n minRun (Scan start, xs, buffer, runStack, c)
       (Collapse start runLen, xs1, buffer,
        runStack @ [\<lparr>run_start = start, run_length = runLen\<rparr>], c1)"
| merge: "length runStack > 1 \<Longrightarrow> shouldMerge runStack \<Longrightarrow>
     timsort_step mv cmp n minRun (Collapse start runLen, xs, buffer, runStack, c)
       (Collapse start runLen, mergeTop mv cmp (xs, buffer, runStack, c))"
| advance: "\<not> (length runStack > 1 \<and> shouldMerge runStack) \<Longrightarrow>
     timsort_step mv cmp n minRun (Collapse start runLen, xs, buffer, runStack, c)
       (Scan (start + runLen), xs, buffer, runStack, c)"
| scanned: "\<not> start < n \<Longrightarrow>
     timsort_step mv cmp n minRun (Scan start, xs, buffer, runStack, c) (Drain, xs, buffer, runStack, c)"
| drain: "length runStack > 1 \<Longrightarrow>
     timsort_step mv cmp n minRun (Drain, xs, buffer, runStack, c)
       (Drain, mergeTop mv cmp (xs, buffer, runStack, c))"

section \<open>Orderings, sortedness and the shape of the run stack\<close>

text \<open>
  A strict weak ordering: irreflexive, transitive, and with a transitive incomparability.
\<close>

definition strict_weak_order :: "('a \<Rightarrow> 'a \<Rightarrow> bool) \<Rightarrow> bool" where
  "strict_weak_order cmp \<longleftrightarrow>
     (\<forall>a. \<not> cmp a a) \<and>
     (\<forall>a b c. cmp a b \<and> cmp b c \<longrightarrow> cmp a c) \<and>
     (\<forall>a b c. \<not> cmp a b \<and> \<not> cmp b a \<and> \<not> cmp b c \<and> \<not> cmp c b \<longrightarrow> \<not> cmp a c \<and> \<not> cmp c a)"

text \<open>
  A list is non-decreasing under \<open>cmp\<close> when no later element is less than an earlier
  one; in particular no element is less than its predecessor.
\<close>

definition nondecreasing :: "('a \<Rightarrow> 'a \<Rightarrow> bool) \<Rightarrow> 'a list \<Rightarrow> bool" where
  "nondecreasing cmp xs = sorted_wrt (\<lambda>a b. \<not> cmp b a) xs"

text \<open>
  \<open>runs_from s runStack e\<close>: the runs of the stack, from the bottom to the top, tile the
  index range \<open>[s, e)\<close>.
\<close>

fun runs_from :: "nat \<Rightarrow> Run list \<Rightarrow> nat \<Rightarrow> bool" where
  "runs_from s [] e = (s = e)"
| "runs_from s (r # rs) e = (run_start r = s \<and> runs_from (s + run_length r) rs e)"

text \<open>
  The reference merge of two lists with the comparison of \<^verbatim>\<open>mergeRuns\<close>: the head of the
  left list goes first when it is less than the head of the right list.
\<close>

fun merge_lists :: "('a \<Rightarrow> 'a \<Rightarrow> bool) \<Rightarrow> 'a list \<Rightarrow> 'a list \<Rightarrow> 'a list" where
  "merge_lists cmp [] rs = rs"
| "merge_lists cmp ls [] = ls"
| "merge_lists cmp (l # ls) (r # rs) =
     (if cmp l r then l # merge_lists cmp ls (r # rs) else r # merge_lists cmp (l # ls) rs)"

text \<open>
  \<open>permuted_within a b xs ys\<close>: the vector \<open>ys\<close> is the vector \<open>xs\<close> with the elements of
  the range \<open>[a, b)\<close> rearranged and every other cell as it was.
\<close>

definition permuted_within :: "nat \<Rightarrow> nat \<Rightarrow> 'a list \<Rightarrow> 'a list \<Rightarrow> bool" where
  "permuted_within a b xs ys \<longleftrightarrow>
     length ys = length xs \<and> take a ys = take a xs \<and> drop b ys = drop b xs \<and>
     mset (slice ys a b) = mset (slice xs a b)"

text \<open>
  The range of every run on the stack is non-decreasing, and the invariant of the loops
  of the driver on the vector \<open>xs0\<close> with the scan position \<open>e\<close>: the vector is a
  rearrangement of \<open>xs0\<close> and the runs on the stack are sorted and tile \<open>[0, e)\<close>.
\<close>

definition runs_sorted :: "('a \<Rightarrow> 'a \<Rightarrow> bool) \<Rightarrow> 'a list \<Rightarrow> Run list \<Rightarrow> bool" where
  "runs_sorted cmp xs runStack =
     list_all (\<lambda>r. nondecreasing cmp (slice xs (run_start r) (run_start r + run_length r))) runStack"

fun sort_inv :: "('a \<Rightarrow> 'a \<Rightarrow> bool) \<Rightarrow> 'a list \<Rightarrow> nat \<Rightarrow> 'a sort_state \<Rightarrow> bool" where
  "sort_inv cmp xs0 e (xs, buffer, runStack, c) =
     (length xs = length xs0 \<and> mset xs = mset xs0 \<and> e \<le> length xs0 \<and>
      runs_from 0 runStack e \<and> runs_sorted cmp xs runStack)"

text \<open>
  The shape of the run stack at each loop head: the runs tile the range from 0 to the scan
  position, which is at most \<open>n\<close>.
\<close>

fun stack_inv :: "nat \<Rightarrow> pc \<times> 'a sort_state \<Rightarrow> bool" where
  "stack_inv n (Scan start, xs, buffer, runStack, c) = (start \<le> n \<and> runs_from 0 runStack start)"
| "stack_inv n (Collapse start runLen, xs, buffer, runStack, c) =
     (start + runLen \<le> n \<and> runs_from 0 runStack (start + runLen))"
| "stack_inv n (Drain, xs, buffer, runStack, c) = (\<exists>e\<le>n. runs_from 0 runStack e)"

text \<open>
  The measure under which every transition decreases, in the lexicographic order: the
  distance of the scan position to \<open>n\<close>, then the loop head, then the stack size.
\<close>

fun step_measure :: "nat \<Rightarrow> pc \<times> 'a sort_state \<Rightarrow> nat \<times> nat \<times> nat" where
  "step_measure n (Scan start, xs, buffer, runStack, c) = (n - start, 1, 0)"
| "step_measure n (Collapse start runLen, xs, buffer, runStack, c) = (n - (start + runLen), 2, length runStack)"
| "step_measure n (Drain, xs, buffer, runStack, c) = (0, 0, length runStack)"

text \<open>
  An ordering that compares pairs by their first component only, and an input of 32 pairs
  whose second component is the position in the input: key 1 sixteen times, then key 0,
  then key 1 fifteen times.
\<close>

definition by_key :: "nat \<times> 'b \<Rightarrow> nat \<times> 'b \<Rightarrow> bool" where
  "by_key a b = (fst a < fst b)"

definition tie_input :: "(nat \<times> nat) list" where
  "tie_input = map (\<lambda>i. (if i = 16 then 0 else 1, i)) [0..<32]"

text \<open>
  Element types with a real move. The move of a \<^verbatim>\<open>std::string\<close> leaves the empty string,
  and the move of a pair of an \<^verbatim>\<open>int\<close> and a string copies the number and empties the
  string. \<open>string_less\<close> is \<^verbatim>\<open>std::less<std::string>\<close>: the lexicographic order of the
  character codes.
\<close>

definition mv_string :: "string \<Rightarrow> string" where
  "mv_string s = []"

definition mv_keyed :: "nat \<times> string \<Rightarrow> nat \<times> string" where
  "mv_keyed p = (fst p, [])"

definition string_less :: "string \<Rightarrow> string \<Rightarrow> bool" where
  "string_less a b = (map of_char a < (map of_char b :: nat list))"

section \<open>The minimum run length\<close>

lemma mod_pow_Suc_zero_iff:
  fixes n :: int
  shows "n mod 2 ^ Suc k = 0 \<longleftrightarrow> n mod 2 = 0 \<and> (n div 2) mod 2 ^ k = 0"
proof -
  have "n mod 2 ^ Suc k = 2 * ((n div 2) mod 2 ^ k) + n mod 2"
    by (simp add: zmod_zmult2_eq mult.commute)
  moreover have "0 \<le> (n div 2) mod 2 ^ k" "0 \<le> n mod 2" by simp_all
  ultimately show ?thesis by linarith
qed

lemma or_and_one_flag:
  fixes r n :: int
  assumes "r = 0 \<or> r = 1"
  shows "(r OR (n AND 1)) = (if r = 1 \<or> n mod 2 \<noteq> 0 then 1 else 0)"
proof -
  have "n mod 2 = 0 \<or> n mod 2 = 1" by presburger
  then show ?thesis using assms by (auto simp: and_one_eq)
qed

lemma minRunLength_loop_char:
  "r = 0 \<or> r = 1 \<Longrightarrow>
   \<exists>k. drop_bit k n < MIN_MERGE \<and> (\<forall>j<k. MIN_MERGE \<le> drop_bit j n) \<and>
       minRunLength_loop r n = drop_bit k n + (if r = 1 \<or> n mod 2 ^ k \<noteq> 0 then 1 else 0)"
proof (induction r n rule: minRunLength_loop.induct)
  case (1 r n)
  show ?case
  proof (cases "n \<ge> MIN_MERGE")
    case False
    then have "minRunLength_loop r n = n + r" by (simp add: minRunLength_loop.simps[of r n])
    with False 1(2) show ?thesis by (intro exI[of _ 0]) auto
  next
    case True
    let ?r = "r OR (n AND 1)"
    have r': "?r = (if r = 1 \<or> n mod 2 \<noteq> 0 then 1 else 0)"
      using 1(2) by (rule or_and_one_flag)
    then have "?r = 0 \<or> ?r = 1" by auto
    from 1(1)[OF True this] obtain k where
      k: "drop_bit k (drop_bit 1 n) < MIN_MERGE"
         "\<forall>j<k. MIN_MERGE \<le> drop_bit j (drop_bit 1 n)"
         "minRunLength_loop ?r (drop_bit 1 n) =
            drop_bit k (drop_bit 1 n) + (if ?r = 1 \<or> drop_bit 1 n mod 2 ^ k \<noteq> 0 then 1 else 0)"
      by blast
    have a: "drop_bit (Suc k) n < MIN_MERGE" using k(1) by (simp add: drop_bit_drop_bit)
    have b: "\<forall>j<Suc k. MIN_MERGE \<le> drop_bit j n"
    proof (intro allI impI)
      fix j assume "j < Suc k"
      show "MIN_MERGE \<le> drop_bit j n"
      proof (cases j)
        case 0 with True show ?thesis by simp
      next
        case (Suc j')
        with \<open>j < Suc k\<close> k(2) have "MIN_MERGE \<le> drop_bit j' (drop_bit 1 n)" by simp
        with Suc show ?thesis by (simp add: drop_bit_drop_bit)
      qed
    qed
    have c: "(?r = 1 \<or> drop_bit 1 n mod 2 ^ k \<noteq> 0) \<longleftrightarrow> (r = 1 \<or> n mod 2 ^ Suc k \<noteq> 0)"
      unfolding r' mod_pow_Suc_zero_iff[of n k] by (auto simp: drop_bit_eq_div)
    have "minRunLength_loop r n = minRunLength_loop ?r (drop_bit 1 n)"
      using True by (simp add: minRunLength_loop.simps[of r n])
    also have "\<dots> = drop_bit (Suc k) n + (if r = 1 \<or> n mod 2 ^ Suc k \<noteq> 0 then 1 else 0)"
      unfolding k(3) c by (simp add: drop_bit_drop_bit)
    finally show ?thesis using a b by blast
  qed
qed

lemma ceil_pow_bounds:
  fixes n :: int
  assumes "m = n div 2 ^ k + (if n mod 2 ^ k \<noteq> 0 then 1 else 0)"
  shows "n \<le> 2 ^ k * m \<and> 2 ^ k * (m - 1) < n"
proof -
  define q where "q = n div 2 ^ k"
  define t where "t = n mod 2 ^ k"
  define p :: int where "p = 2 ^ k"
  have e: "n = p * q + t" unfolding q_def t_def p_def by simp
  have t: "0 \<le> t" "t < p" unfolding t_def p_def
    by (rule pos_mod_sign, simp) (rule pos_mod_bound, simp)
  have m: "m = q + (if t \<noteq> 0 then 1 else 0)" using assms unfolding q_def t_def .
  have "n \<le> p * m \<and> p * (m - 1) < n"
  proof (cases "t = 0")
    case True
    with m have "m = q" by simp
    have "0 < p" unfolding p_def by simp
    then have "p * (q - 1) < p * q" by simp
    with e True \<open>m = q\<close> show ?thesis by simp
  next
    case False
    with m have "p * m = p * q + p" "p * (m - 1) = p * q"
      by (simp_all add: algebra_simps)
    moreover have "0 < t" using False t by simp
    ultimately show ?thesis using e t(2) by simp
  qed
  then show ?thesis unfolding p_def .
qed

lemma minRunLength_char:
  assumes "MIN_MERGE \<le> n"
  shows "16 \<le> minRunLength n \<and> minRunLength n \<le> 32 \<and>
         (\<exists>k. drop_bit k n < MIN_MERGE \<and> (\<forall>j<k. MIN_MERGE \<le> drop_bit j n) \<and>
              n \<le> 2 ^ k * minRunLength n \<and> 2 ^ k * (minRunLength n - 1) < n)"
proof -
  obtain k where k: "drop_bit k n < MIN_MERGE" "\<forall>j<k. MIN_MERGE \<le> drop_bit j n"
     "minRunLength n = drop_bit k n + (if n mod 2 ^ k \<noteq> 0 then 1 else 0)"
    using minRunLength_loop_char[of 0 n] unfolding minRunLength_def by auto
  have "k \<noteq> 0" using k(1) assms by (cases k) auto
  then obtain k' where k': "k = Suc k'" by (cases k) auto
  with k(2) have "MIN_MERGE \<le> drop_bit k' n" by simp
  then have "32 \<le> n div 2 ^ k'" by (simp add: drop_bit_eq_div MIN_MERGE_def)
  moreover have "n div 2 ^ k = (n div 2 ^ k') div 2"
  proof -
    have "n div 2 ^ k = n div (2 ^ k' * 2)" unfolding k' by (simp add: mult.commute)
    also have "\<dots> = n div 2 ^ k' div 2" by (rule zdiv_zmult2_eq) simp
    finally show ?thesis .
  qed
  ultimately have lo: "16 \<le> drop_bit k n" by (simp add: drop_bit_eq_div)
  have hi: "drop_bit k n \<le> 31" using k(1) by (simp add: MIN_MERGE_def)
  from ceil_pow_bounds[of "minRunLength n" n k] k(3)
  have "n \<le> 2 ^ k * minRunLength n \<and> 2 ^ k * (minRunLength n - 1) < n"
    by (simp add: drop_bit_eq_div)
  with lo hi k show ?thesis by auto
qed

text \<open>
  C4, with the range the code has. For every \<open>n\<close> at or above the threshold 32, \<open>minRunLength n\<close> lies between
  16 and 32, and with \<open>k\<close> the number of shifts the loop performs (the least \<open>k\<close> with
  \<open>n\<close> shifted right \<open>k\<close> times below the threshold) \<open>n\<close> is at most \<open>2^k\<close> times the
  result and more than \<open>2^k\<close> times the result minus one.
\<close>

theorem minRunLength_range:
  assumes "MIN_MERGE \<le> n"
  shows "16 \<le> minRunLength n \<and> minRunLength n \<le> 32 \<and>
         (\<exists>k. drop_bit k n < MIN_MERGE \<and> (\<forall>j<k. MIN_MERGE \<le> drop_bit j n) \<and>
              n \<le> 2 ^ k * minRunLength n \<and> 2 ^ k * (minRunLength n - 1) < n)"
  using assms by (rule minRunLength_char)

theorem minRunLength_range_witness:
  "MIN_MERGE \<le> 1000 \<and> 16 \<le> minRunLength 1000 \<and> minRunLength 1000 \<le> 32 \<and>
         (\<exists>k. drop_bit k (1000::int) < MIN_MERGE \<and> (\<forall>j<k. MIN_MERGE \<le> drop_bit j (1000::int)) \<and>
              1000 \<le> 2 ^ k * minRunLength 1000 \<and> 2 ^ k * (minRunLength 1000 - 1) < 1000)"
  using minRunLength_range[of 1000] by (simp add: MIN_MERGE_def)

text \<open>
  C4, with the range from 32 to 64: it does not hold, at \<open>n = 32\<close> the result is 16.
\<close>

theorem minRunLength_below_32_counterexample:
  "\<not> (32 \<le> minRunLength 32 \<and> minRunLength 32 \<le> 64)"
  by (simp add: minRunLength_def MIN_MERGE_def minRunLength_loop.simps)

section \<open>The run stack\<close>

lemma mergeTop_stack_length:
  assumes "length runStack > 1" "mergeTop mv cmp (xs, buffer, runStack, c) = (xs', buffer', runStack', c')"
  shows "length runStack' + 1 = length runStack"
  using assms by (auto simp: Let_def split: prod.splits)

lemma mergeTop_stack:
  assumes "mergeTop mv cmp (xs, buffer, rs0 @ [r1, r2], c) = (xs', buffer', runStack', c')"
  shows "runStack' = rs0 @ [\<lparr>run_start = run_start r1, run_length = run_length r1 + run_length r2\<rparr>]"
  using assms by (auto simp: Let_def butlast_append split: prod.splits)

lemma two_top:
  assumes "length (rs :: 'a list) > 1"
  obtains rs0 r1 r2 where "rs = rs0 @ [r1, r2]"
proof -
  from assms have "rs \<noteq> []" by auto
  then obtain rs1 r2 where a: "rs = rs1 @ [r2]" by (metis rev_exhaust)
  with assms have "rs1 \<noteq> []" by auto
  then obtain rs0 r1 where "rs1 = rs0 @ [r1]" by (metis rev_exhaust)
  with a that show ?thesis by simp
qed

lemma runs_from_append:
  "runs_from s (rs @ rs') e \<longleftrightarrow> (\<exists>m. runs_from s rs m \<and> runs_from m rs' e)"
  by (induction rs arbitrary: s) auto

lemma runs_from_le: "runs_from s rs e \<Longrightarrow> s \<le> e"
proof (induction rs arbitrary: s)
  case Nil then show ?case by simp
next
  case (Cons a rs)
  then have "s + run_length a \<le> e" by simp
  then show ?case by simp
qed

lemma runs_from_member:
  "runs_from s rs e \<Longrightarrow> r \<in> set rs \<Longrightarrow> s \<le> run_start r \<and> run_start r + run_length r \<le> e"
proof (induction rs arbitrary: s)
  case Nil then show ?case by simp
next
  case (Cons a rs)
  then show ?case using runs_from_le[of "s + run_length a" rs e] by fastforce
qed

lemma runs_from_contiguous:
  "runs_from s rs e \<Longrightarrow> Suc i < length rs \<Longrightarrow>
     run_start (rs ! Suc i) = run_start (rs ! i) + run_length (rs ! i)"
proof (induction rs arbitrary: s i)
  case Nil then show ?case by simp
next
  case (Cons a rs)
  show ?case
  proof (cases i)
    case 0
    with Cons.prems show ?thesis by (cases rs) auto
  next
    case (Suc j)
    with Cons show ?thesis by auto
  qed
qed

lemma runs_from_disjoint:
  "runs_from s rs e \<Longrightarrow> i < j \<Longrightarrow> j < length rs \<Longrightarrow>
     run_start (rs ! i) + run_length (rs ! i) \<le> run_start (rs ! j)"
proof (induction rs arbitrary: s i j)
  case Nil then show ?case by simp
next
  case (Cons a rs)
  obtain j' where j: "j = Suc j'" using Cons.prems(2) by (cases j) auto
  show ?case
  proof (cases i)
    case 0
    have "rs ! j' \<in> set rs" using Cons.prems(3) j by simp
    with runs_from_member[of "s + run_length a" rs e "rs ! j'"] Cons.prems(1)
    show ?thesis using 0 j by simp
  next
    case (Suc i')
    with Cons j show ?thesis by auto
  qed
qed

lemma runs_from_mergeTop:
  assumes "runs_from 0 runStack e" "length runStack > 1"
    "mergeTop mv cmp (xs, buffer, runStack, c) = (xs', buffer', runStack', c')"
  shows "runs_from 0 runStack' e"
proof -
  from assms(2) obtain rs0 r1 r2 where rs: "runStack = rs0 @ [r1, r2]" by (rule two_top)
  from mergeTop_stack[OF assms(3)[unfolded rs]]
  have "runStack' = rs0 @ [\<lparr>run_start = run_start r1, run_length = run_length r1 + run_length r2\<rparr>]" .
  with assms(1) rs show ?thesis by (auto simp: runs_from_append add.assoc)
qed

lemma stack_inv_step:
  assumes "timsort_step mv cmp n minRun s t" "stack_inv n s"
  shows "stack_inv n t"
  using assms
proof (induction rule: timsort_step.induct)
  case (push start xs c xs1 runLen c1 buffer runStack)
  from nextRun_bounds[OF push(1,2)] push(3) show ?case
    by (auto simp: runs_from_append)
next
  case (merge runStack start runLen xs buffer c)
  obtain xs' buffer' runStack' c' where
    m: "mergeTop mv cmp (xs, buffer, runStack, c) = (xs', buffer', runStack', c')"
    by (cases "mergeTop mv cmp (xs, buffer, runStack, c)") auto
  from merge(3) runs_from_mergeTop[OF _ merge(1) m] show ?case unfolding m by simp
next
  case (advance runStack start runLen xs buffer c)
  then show ?case by simp
next
  case (scanned start xs buffer runStack c)
  then show ?case by auto
next
  case (drain runStack xs buffer c)
  obtain xs' buffer' runStack' c' where
    m: "mergeTop mv cmp (xs, buffer, runStack, c) = (xs', buffer', runStack', c')"
    by (cases "mergeTop mv cmp (xs, buffer, runStack, c)") auto
  from drain(2) runs_from_mergeTop[OF _ drain(1) m] show ?case unfolding m by auto
qed

lemma stack_inv_reachable:
  assumes "(timsort_step mv cmp n minRun)\<^sup>*\<^sup>* s t" "stack_inv n s"
  shows "stack_inv n t"
  using assms by (induction rule: rtranclp_induct) (auto intro: stack_inv_step)

lemma stack_inv_runs:
  assumes "stack_inv n (pc, xs, buffer, runStack, c)"
  shows "\<exists>e\<le>n. runs_from 0 runStack e"
  using assms by (cases pc) auto

lemma runs_from_take:
  "runs_from s rs e \<Longrightarrow> \<exists>e'\<le>e. runs_from s (take k rs) e'"
proof (induction rs arbitrary: s k)
  case Nil
  then show ?case by simp
next
  case (Cons r rs)
  show ?case
  proof (cases k)
    case 0
    have "s \<le> e" using Cons.prems by (rule runs_from_le)
    with 0 show ?thesis by simp
  next
    case (Suc j)
    from Cons.prems have "runs_from (s + run_length r) rs e" and "run_start r = s" by simp_all
    from Cons.IH[OF this(1), of j] this(2) Suc show ?thesis by simp
  qed
qed

text \<open>
  C7. In every state the driver reaches from its initial state, where \<open>n\<close> is the length
  the code works with (the length of the vector after the cast), every run on the stack ends at or before \<open>n\<close>, each run starts where the run
  below it ends, and the ranges of two runs on the stack are disjoint, the lower run
  ending at or before the start of the upper one. The same holds of the stack with any
  number of its topmost runs popped (\<open>take k runStack\<close>), which is the stack between
  the pops and the push of a merge.
\<close>

theorem run_stack_tiles_prefix:
  assumes "(timsort_step mv cmp n minRun)\<^sup>*\<^sup>* (Scan 0, xs, [], [], 0) (pc, xs', buffer, runStack, c)"
    and "rs = take k runStack"
  shows "(\<forall>r \<in> set rs. run_start r + run_length r \<le> n) \<and>
         (\<forall>i. Suc i < length rs \<longrightarrow>
              run_start (rs ! Suc i) = run_start (rs ! i) + run_length (rs ! i)) \<and>
         (\<forall>i j. i < j \<and> j < length rs \<longrightarrow>
              run_start (rs ! i) + run_length (rs ! i) \<le> run_start (rs ! j))"
proof -
  have "stack_inv n (Scan 0, xs, [], [], 0)" by simp
  from stack_inv_reachable[OF assms(1) this] stack_inv_runs
  obtain e where e: "e \<le> n" "runs_from 0 runStack e" by blast
  from runs_from_take[OF e(2), of k] assms(2) obtain e' where e': "e' \<le> e" "runs_from 0 rs e'"
    by blast
  show ?thesis
    using runs_from_member[OF e'(2)] runs_from_contiguous[OF e'(2)] runs_from_disjoint[OF e'(2)] e(1) e'(1)
    by (meson le_trans)
qed

theorem run_stack_tiles_prefix_witness:
  "(timsort_step id (<) 4 2)\<^sup>*\<^sup>* (Scan 0, [1, 2, 0, 5 :: nat], [], [], 0)
      (Collapse 2 2, [1, 2, 0, 5], [],
       [\<lparr>run_start = 0, run_length = 2\<rparr>, \<lparr>run_start = 2, run_length = 2\<rparr>], 5) \<and>
   run_start \<lparr>run_start = 0, run_length = 2\<rparr> + run_length \<lparr>run_start = 0, run_length = 2\<rparr>
     \<le> 4 \<and>
   run_start \<lparr>run_start = 2, run_length = 2\<rparr> + run_length \<lparr>run_start = 2, run_length = 2\<rparr>
     \<le> 4 \<and>
   run_start \<lparr>run_start = 2, run_length = 2\<rparr>
     = run_start \<lparr>run_start = 0, run_length = 2\<rparr> + run_length \<lparr>run_start = 0, run_length = 2\<rparr>"
proof -
  let ?xs = "[1, 2, 0, 5 :: nat]"
  let ?r1 = "\<lparr>run_start = 0, run_length = 2\<rparr>"
  let ?r2 = "\<lparr>run_start = 2, run_length = 2\<rparr>"
  have n1: "nextRun id (<) 4 2 0 (?xs, 0) = (?xs, 2, 3)" by code_simp
  have n2: "nextRun id (<) 4 2 2 (?xs, 3) = (?xs, 2, 5)" by code_simp
  have s1: "timsort_step id (<) 4 2 (Scan 0, ?xs, [], [], 0) (Collapse 0 2, ?xs, [], [?r1], 3)"
    using timsort_step.push[of 0 4 id "(<)" 2 ?xs 0 ?xs 2 3 "[]" "[]"] n1 by simp
  have "timsort_step id (<) 4 2 (Collapse 0 2, ?xs, [], [?r1], 3) (Scan (0 + 2), ?xs, [], [?r1], 3)"
    by (rule timsort_step.advance) simp
  then have s2: "timsort_step id (<) 4 2 (Collapse 0 2, ?xs, [], [?r1], 3) (Scan 2, ?xs, [], [?r1], 3)"
    by (simp only: add_0)
  have s3: "timsort_step id (<) 4 2 (Scan 2, ?xs, [], [?r1], 3) (Collapse 2 2, ?xs, [], [?r1, ?r2], 5)"
    using timsort_step.push[of 2 4 id "(<)" 2 ?xs 3 ?xs 2 5 "[]" "[?r1]"] n2 by simp
  have r: "(timsort_step id (<) 4 2)\<^sup>*\<^sup>* (Scan 0, ?xs, [], [], 0)
             (Collapse 2 2, ?xs, [], [?r1, ?r2], 5)"
  proof -
    have "(timsort_step id (<) 4 2)\<^sup>*\<^sup>* (Scan 0, ?xs, [], [], 0) (Collapse 0 2, ?xs, [], [?r1], 3)"
      using s1 by (rule r_into_rtranclp[of "timsort_step id (<) 4 2"])
    then have "(timsort_step id (<) 4 2)\<^sup>*\<^sup>* (Scan 0, ?xs, [], [], 0) (Scan 2, ?xs, [], [?r1], 3)"
      using s2 by (rule rtranclp.rtrancl_into_rtrancl)
    then have "(timsort_step id (<) 4 2)\<^sup>*\<^sup>* (Scan 0, ?xs, [], [], 0) (Collapse 2 2, ?xs, [], [?r1, ?r2], 5)"
      using s3 by (rule rtranclp.rtrancl_into_rtrancl)
    then show ?thesis .
  qed
  have k: "[?r1, ?r2] = take 2 [?r1, ?r2]" by simp
  have a: "\<forall>r \<in> set [?r1, ?r2]. run_start r + run_length r \<le> 4"
    using run_stack_tiles_prefix[OF r k] by (rule conjunct1)
  have a1: "run_start ?r1 + run_length ?r1 \<le> 4"
    and a2: "run_start ?r2 + run_length ?r2 \<le> 4"
    using a by simp_all
  have b: "run_start ?r2 = run_start ?r1 + run_length ?r1" by simp
  show ?thesis by (intro conjI r a1 a2 b)
qed

section \<open>The merge loop after a push\<close>

text \<open>
  C5. When the merge loop that follows a push exits, the run stack it leaves satisfies the
  balance condition on its top: with at least three runs the third from the top is longer
  than the two above it together, and with at least two runs the second from the top is
  longer than the top.
\<close>

theorem mergeCollapse_balanced:
  assumes "mergeCollapse mv cmp s = (xs', buffer', runStack', c')"
  shows "(3 \<le> length runStack' \<longrightarrow>
            run_length (runStack' ! (length runStack' - 3))
              > run_length (runStack' ! (length runStack' - 2)) + run_length (runStack' ! (length runStack' - 1))) \<and>
         (2 \<le> length runStack' \<longrightarrow>
            run_length (runStack' ! (length runStack' - 2)) > run_length (runStack' ! (length runStack' - 1)))"
  using assms
proof (induction mv cmp s rule: mergeCollapse.induct)
  case (1 mv cmp xs buffer runStack c)
  show ?case
  proof (cases "length runStack > 1 \<and> shouldMerge runStack")
    case True
    then have "mergeCollapse mv cmp (xs, buffer, runStack, c) =
               mergeCollapse mv cmp (mergeTop mv cmp (xs, buffer, runStack, c))"
      by (subst mergeCollapse.simps) simp
    with 1 True show ?thesis by simp
  next
    case False
    then have "mergeCollapse mv cmp (xs, buffer, runStack, c) = (xs, buffer, runStack, c)"
      by (subst mergeCollapse.simps) auto
    with 1(2) have "runStack' = runStack" by simp
    with False show ?thesis by (auto simp: shouldMerge_def Let_def split: if_splits)
  qed
qed

theorem mergeCollapse_balanced_witness:
  "mergeCollapse (\<lambda>x. x) (<) ([1, 2, 3, 4, 6, 5 :: nat], [],
      [\<lparr>run_start = 0, run_length = 4\<rparr>, \<lparr>run_start = 4, run_length = 1\<rparr>,
       \<lparr>run_start = 5, run_length = 1\<rparr>], 0)
     = ([1, 2, 3, 4, 5, 6], [6], [\<lparr>run_start = 0, run_length = 4\<rparr>, \<lparr>run_start = 4, run_length = 2\<rparr>], 1)
   \<and> run_length \<lparr>run_start = 0, run_length = 4\<rparr> > run_length \<lparr>run_start = 4, run_length = 2\<rparr>"
proof -
  have e: "mergeCollapse (\<lambda>x. x) (<) ([1, 2, 3, 4, 6, 5 :: nat], [],
      [\<lparr>run_start = 0, run_length = 4\<rparr>, \<lparr>run_start = 4, run_length = 1\<rparr>,
       \<lparr>run_start = 5, run_length = 1\<rparr>], 0)
     = ([1, 2, 3, 4, 5, 6], [6], [\<lparr>run_start = 0, run_length = 4\<rparr>, \<lparr>run_start = 4, run_length = 2\<rparr>], 1)"
    by code_simp
  from mergeCollapse_balanced[OF e] e show ?thesis by simp
qed

section \<open>Short inputs\<close>

lemma to_int32_id: "0 \<le> k \<Longrightarrow> k < 2 ^ 31 \<Longrightarrow> to_int32 k = k"
  by (simp add: to_int32_def)

lemma to_int32_le: "0 \<le> k \<Longrightarrow> to_int32 k \<le> k"
proof -
  assume "0 \<le> k"
  then have "(k + 2 ^ 31) mod 2 ^ 32 \<le> k + 2 ^ 31"
    by (intro zmod_le_nonneg_dividend) simp
  then show ?thesis by (simp add: to_int32_def)
qed

text \<open>
  C8. On a vector of length 0 or 1, and for every predicate, \<open>timsort\<close> returns the vector
  as it is and has called the predicate zero times.
\<close>

theorem timsort_short_noop:
  assumes "length xs \<le> 1"
  shows "timsort mv cmp xs = (xs, 0)"
proof -
  from assms have "to_int32 (int (length xs)) = int (length xs)" by (intro to_int32_id) auto
  with assms show ?thesis by (simp add: timsort_def timsortImpl_def)
qed

theorem timsort_short_noop_witness:
  "length [7 :: nat] \<le> 1 \<and> timsort id (<) [7 :: nat] = ([7], 0)"
  using timsort_short_noop[of "[7 :: nat]" id "(<)"] by simp

section \<open>Ranges of a list\<close>

lemma length_slice [simp]: "length (slice xs i j) = min (j - i) (length xs - i)"
  by (simp add: slice_def)

lemma slice_nth: "k < j - i \<Longrightarrow> j \<le> length xs \<Longrightarrow> slice xs i j ! k = xs ! (i + k)"
  by (simp add: slice_def)

lemma slice_empty [simp]: "slice xs i i = []"
  by (simp add: slice_def)

lemma slice_append: "i \<le> j \<Longrightarrow> j \<le> k \<Longrightarrow> slice xs i j @ slice xs j k = slice xs i k"
proof -
  assume a: "i \<le> j" "j \<le> k"
  have "take (j - i) (drop i xs) @ take (k - j) (drop (j - i) (drop i xs)) = take (k - i) (drop i xs)"
    using a by (metis take_add le_add_diff_inverse diff_le_mono add.commute add_diff_cancel_left' 
          Nat.diff_add_assoc2 diff_diff_cancel diff_le_self le_trans ordered_cancel_comm_monoid_diff_class.add_diff_inverse)
  then show ?thesis using a by (simp add: slice_def)
qed

lemma slice_whole: "slice xs 0 (length xs) = xs"
  by (simp add: slice_def)

lemma slice_split: "i \<le> j \<Longrightarrow> take i xs @ slice xs i j @ drop j xs = xs"
proof -
  assume a: "i \<le> j"
  have "slice xs i j @ drop j xs = drop i xs"
    using a by (metis slice_def append_take_drop_id drop_drop le_add_diff_inverse2)
  then show ?thesis by simp
qed

lemma slice_Cons: "i < j \<Longrightarrow> i < length xs \<Longrightarrow> slice xs i j = xs ! i # slice xs (Suc i) j"
proof -
  assume a: "i < j" "i < length xs"
  then obtain m where m: "j - i = Suc m" by (cases "j - i") auto
  then have "j - Suc i = m" by simp
  with a m show ?thesis by (simp add: slice_def Cons_nth_drop_Suc[symmetric])
qed

lemma slice_snoc: "i \<le> j \<Longrightarrow> j < length xs \<Longrightarrow> slice xs i (Suc j) = slice xs i j @ [xs ! j]"
proof -
  assume a: "i \<le> j" "j < length xs"
  have "slice xs i j @ slice xs j (Suc j) = slice xs i (Suc j)"
    using a by (intro slice_append) auto
  moreover have "slice xs j (Suc j) = [xs ! j]"
    using a slice_Cons[of j "Suc j" xs] by simp
  ultimately show ?thesis by simp
qed

text \<open>A list cut at two positions, with the middle part replaced.\<close>

lemma length_replace_mid:
  "i \<le> j \<Longrightarrow> j \<le> length xs \<Longrightarrow> length m = j - i \<Longrightarrow> length (take i xs @ m @ drop j xs) = length xs"
  by simp

lemma slice_replace_mid:
  "i \<le> j \<Longrightarrow> j \<le> length xs \<Longrightarrow> length m = j - i \<Longrightarrow> slice (take i xs @ m @ drop j xs) i j = m"
  by (simp add: slice_def)

lemma take_replace_mid:
  "k \<le> i \<Longrightarrow> i \<le> length xs \<Longrightarrow> take k (take i xs @ m @ ys) = take k xs"
  by simp

lemma slice_alt: "slice xs a b = drop a (take b xs)"
  by (simp add: slice_def drop_take)

lemma slice_replace_mid_before:
  "b \<le> i \<Longrightarrow> i \<le> length xs \<Longrightarrow> slice (take i xs @ m @ ys) a b = slice xs a b"
  by (simp add: slice_alt)

lemma drop_replace_mid:
  "i \<le> j \<Longrightarrow> j \<le> k \<Longrightarrow> j \<le> length xs \<Longrightarrow> length m = j - i \<Longrightarrow>
     drop k (take i xs @ m @ drop j xs) = drop k xs"
  by simp

lemma mset_replace_mid:
  "i \<le> j \<Longrightarrow> mset m = mset (slice xs i j) \<Longrightarrow> mset (take i xs @ m @ drop j xs) = mset xs"
proof -
  assume a: "i \<le> j" "mset m = mset (slice xs i j)"
  have "mset (take i xs @ m @ drop j xs) = mset (take i xs @ slice xs i j @ drop j xs)"
    using a(2) by simp
  with slice_split[OF a(1), of xs] show ?thesis by simp
qed

section \<open>The run detector\<close>

lemma descending_run_spec:
  assumes "\<forall>i. 1 \<le> i \<and> i < runLen \<longrightarrow> cmp (xs ! (start + i)) (xs ! (start + i - 1))"
    and "descending_run cmp xs n start runLen c = (k, c')"
  shows "(\<forall>i. 1 \<le> i \<and> i < k \<longrightarrow> cmp (xs ! (start + i)) (xs ! (start + i - 1))) \<and>
         (start + k < n \<longrightarrow> \<not> cmp (xs ! (start + k)) (xs ! (start + k - 1)))"
  using assms
proof (induction cmp xs n start runLen c rule: descending_run.induct)
  case (1 cmp xs n start runLen c)
  show ?case
  proof (cases "start + runLen < n \<and> cmp (xs ! (start + runLen)) (xs ! (start + runLen - 1))")
    case True
    then have e: "descending_run cmp xs n start runLen c = descending_run cmp xs n start (runLen + 1) (c + 1)"
      by (subst descending_run.simps) simp
    have "\<forall>i. 1 \<le> i \<and> i < runLen + 1 \<longrightarrow> cmp (xs ! (start + i)) (xs ! (start + i - 1))"
    proof (intro allI impI)
      fix i assume i: "1 \<le> i \<and> i < runLen + 1"
      show "cmp (xs ! (start + i)) (xs ! (start + i - 1))"
      proof (cases "i = runLen")
        case True
        with \<open>start + runLen < n \<and> cmp (xs ! (start + runLen)) (xs ! (start + runLen - 1))\<close>
        show ?thesis by simp
      next
        case False
        with i 1(2) show ?thesis by simp
      qed
    qed
    from 1(1)[OF _ _ this] True 1(3) e show ?thesis by simp
  next
    case False
    then have "descending_run cmp xs n start runLen c = (runLen, if start + runLen < n then c + 1 else c)"
      by (subst descending_run.simps) auto
    with 1(3) have "k = runLen" by simp
    with False 1(2) show ?thesis by auto
  qed
qed

lemma ascending_run_spec:
  assumes "\<forall>i. 1 \<le> i \<and> i < runLen \<longrightarrow> \<not> cmp (xs ! (start + i)) (xs ! (start + i - 1))"
    and "ascending_run cmp xs n start runLen c = (k, c')"
  shows "(\<forall>i. 1 \<le> i \<and> i < k \<longrightarrow> \<not> cmp (xs ! (start + i)) (xs ! (start + i - 1))) \<and>
         (start + k < n \<longrightarrow> cmp (xs ! (start + k)) (xs ! (start + k - 1)))"
  using assms
proof (induction cmp xs n start runLen c rule: ascending_run.induct)
  case (1 cmp xs n start runLen c)
  show ?case
  proof (cases "start + runLen < n \<and> \<not> cmp (xs ! (start + runLen)) (xs ! (start + runLen - 1))")
    case True
    then have e: "ascending_run cmp xs n start runLen c = ascending_run cmp xs n start (runLen + 1) (c + 1)"
      by (subst ascending_run.simps) simp
    have "\<forall>i. 1 \<le> i \<and> i < runLen + 1 \<longrightarrow> \<not> cmp (xs ! (start + i)) (xs ! (start + i - 1))"
    proof (intro allI impI)
      fix i assume i: "1 \<le> i \<and> i < runLen + 1"
      show "\<not> cmp (xs ! (start + i)) (xs ! (start + i - 1))"
      proof (cases "i = runLen")
        case True
        with \<open>start + runLen < n \<and> \<not> cmp (xs ! (start + runLen)) (xs ! (start + runLen - 1))\<close>
        show ?thesis by simp
      next
        case False
        with i 1(2) show ?thesis by simp
      qed
    qed
    from 1(1)[OF _ _ this] True 1(3) e show ?thesis by simp
  next
    case False
    then have "ascending_run cmp xs n start runLen c = (runLen, if start + runLen < n then c + 1 else c)"
      by (subst ascending_run.simps) auto
    with 1(3) have "k = runLen" by simp
    with False 1(2) show ?thesis by auto
  qed
qed

lemma reverse_range_nth:
  assumes "a + k \<le> length xs" "i < k"
  shows "reverse_range xs a (a + k) ! (a + i) = xs ! (a + (k - 1 - i))"
proof -
  have l: "length (slice xs a (a + k)) = k" using assms by simp
  have "reverse_range xs a (a + k) ! (a + i) = (rev (slice xs a (a + k)) @ drop (a + k) xs) ! i"
    using assms by (simp add: reverse_range_def nth_append)
  also have "\<dots> = rev (slice xs a (a + k)) ! i" using assms l by (simp add: nth_append)
  also have "\<dots> = slice xs a (a + k) ! (k - 1 - i)" using assms l by (simp add: rev_nth)
  also have "\<dots> = xs ! (a + (k - 1 - i))" using assms by (intro slice_nth) auto
  finally show ?thesis .
qed

lemma reversed_run_ascending:
  assumes "a + k \<le> length xs"
    and "\<forall>i. 1 \<le> i \<and> i < k \<longrightarrow> cmp (xs ! (a + i)) (xs ! (a + i - 1))"
    and "i + 1 < k"
  shows "cmp (reverse_range xs a (a + k) ! (a + i)) (reverse_range xs a (a + k) ! (a + i + 1))"
proof -
  have "reverse_range xs a (a + k) ! (a + i) = xs ! (a + (k - 1 - i))"
    using assms by (intro reverse_range_nth) auto
  moreover have "reverse_range xs a (a + k) ! (a + (i + 1)) = xs ! (a + (k - 1 - (i + 1)))"
    using assms by (intro reverse_range_nth) auto
  moreover have "cmp (xs ! (a + (k - 1 - i))) (xs ! (a + (k - 1 - i) - 1))"
  proof -
    have "1 \<le> k - 1 - i \<and> k - 1 - i < k" using assms(3) by auto
    with assms(2) show ?thesis by blast
  qed
  moreover have "a + (k - 1 - i) - 1 = a + (k - 1 - (i + 1))" using assms by simp
  ultimately show ?thesis by (simp add: add.assoc)
qed

text \<open>
  C6. The run detector at \<open>start\<close> in a vector of which \<open>n\<close> cells are considered reports
  a length of at least 1. When \<open>start + 1\<close> is not below \<open>n\<close> the length is 1 and the
  vector is unchanged. When the element at \<open>start + 1\<close> is less than the one at \<open>start\<close>,
  every element of the run after the first is less than its predecessor, the run stops at
  \<open>n\<close> or before an element that is not less than its predecessor, and the range of the
  run is reversed in place, after which each of its elements is less than the next one.
  Otherwise no element of the run is less than its predecessor, the run stops at \<open>n\<close> or
  before an element that is less than its predecessor, and the vector is unchanged.
\<close>

theorem detectRun_spec:
  assumes "detectRun cmp n start (xs, c) = (ys, runLen, c')"
  shows "1 \<le> runLen \<and>
     (n \<le> start + 1 \<longrightarrow> runLen = 1 \<and> ys = xs) \<and>
     (start + 1 < n \<and> cmp (xs ! (start + 1)) (xs ! start) \<longrightarrow>
        start + runLen \<le> n \<and>
        (\<forall>i. 1 \<le> i \<and> i < runLen \<longrightarrow> cmp (xs ! (start + i)) (xs ! (start + i - 1))) \<and>
        (start + runLen < n \<longrightarrow> \<not> cmp (xs ! (start + runLen)) (xs ! (start + runLen - 1))) \<and>
        ys = take start xs @ rev (slice xs start (start + runLen)) @ drop (start + runLen) xs \<and>
        (n \<le> length xs \<longrightarrow> (\<forall>i. i + 1 < runLen \<longrightarrow> cmp (ys ! (start + i)) (ys ! (start + i + 1))))) \<and>
     (start + 1 < n \<and> \<not> cmp (xs ! (start + 1)) (xs ! start) \<longrightarrow>
        start + runLen \<le> n \<and>
        (\<forall>i. 1 \<le> i \<and> i < runLen \<longrightarrow> \<not> cmp (xs ! (start + i)) (xs ! (start + i - 1))) \<and>
        (start + runLen < n \<longrightarrow> cmp (xs ! (start + runLen)) (xs ! (start + runLen - 1))) \<and>
        ys = xs)"
proof (cases "start + 1 < n")
  case False
  with assms show ?thesis by (simp add: detectRun.simps)
next
  case s: True
  show ?thesis
  proof (cases "cmp (xs ! (start + 1)) (xs ! start)")
    case True
    obtain k c1 where d: "descending_run cmp xs n start 1 (c + 1) = (k, c1)"
      by (cases "descending_run cmp xs n start 1 (c + 1)") auto
    with assms s True have r: "runLen = k" "ys = reverse_range xs start (start + k)"
      by (auto simp add: detectRun.simps)
    have b: "1 \<le> k" "start + k \<le> n"
      using descending_run_bounds[of 1 cmp xs n start "c + 1"] d s by auto
    have p: "(\<forall>i. 1 \<le> i \<and> i < k \<longrightarrow> cmp (xs ! (start + i)) (xs ! (start + i - 1))) \<and>
             (start + k < n \<longrightarrow> \<not> cmp (xs ! (start + k)) (xs ! (start + k - 1)))"
      by (rule descending_run_spec[OF _ d]) simp
    have "n \<le> length xs \<longrightarrow> (\<forall>i. i + 1 < k \<longrightarrow> cmp (ys ! (start + i)) (ys ! (start + i + 1)))"
    proof (intro impI allI)
      fix i assume "n \<le> length xs" "i + 1 < k"
      with b have "start + k \<le> length xs" by simp
      from reversed_run_ascending[OF this _ \<open>i + 1 < k\<close>, of cmp] p
      show "cmp (ys ! (start + i)) (ys ! (start + i + 1))" unfolding r by blast
    qed
    with r b p s True show ?thesis by (simp add: reverse_range_def)
  next
    case False
    obtain k c1 where d: "ascending_run cmp xs n start 1 (c + 1) = (k, c1)"
      by (cases "ascending_run cmp xs n start 1 (c + 1)") auto
    with assms s False have r: "runLen = k" "ys = xs"
      by (auto simp add: detectRun.simps)
    have b: "1 \<le> k" "start + k \<le> n"
      using ascending_run_bounds[of 1 cmp xs n start "c + 1"] d s by auto
    have p: "(\<forall>i. 1 \<le> i \<and> i < k \<longrightarrow> \<not> cmp (xs ! (start + i)) (xs ! (start + i - 1))) \<and>
             (start + k < n \<longrightarrow> cmp (xs ! (start + k)) (xs ! (start + k - 1)))"
      by (rule ascending_run_spec[OF _ d]) simp
    with r b s False show ?thesis by simp
  qed
qed

theorem detectRun_spec_witness:
  "detectRun (<) 5 0 ([5, 3, 4, 1, 2 :: nat], 0) = ([3, 5, 4, 1, 2], 2, 3) \<and>
   0 + 1 < (5 :: nat) \<and> [5, 3, 4, 1, 2 :: nat] ! (0 + 1) < [5, 3, 4, 1, 2] ! 0 \<and>
   1 \<le> (2 :: nat) \<and>
   \<not> [5, 3, 4, 1, 2 :: nat] ! 2 < [5, 3, 4, 1, 2 :: nat] ! 1 \<and>
   [3, 5, 4, 1, 2 :: nat] = take 0 [5, 3, 4, 1, 2] @ rev (slice [5, 3, 4, 1, 2] 0 2) @ drop 2 [5, 3, 4, 1, 2]"
proof -
  have e: "detectRun (<) 5 0 ([5, 3, 4, 1, 2 :: nat], 0) = ([3, 5, 4, 1, 2], 2, 3)" by code_simp
  note t = detectRun_spec[OF e]
  from t have a: "1 \<le> (2 :: nat)" by blast
  have h1: "0 + 1 < (5 :: nat)" and h2: "[5, 3, 4, 1, 2 :: nat] ! (0 + 1) < [5, 3, 4, 1, 2] ! 0"
    by simp_all
  from t h1 h2 have b: "(0 + 2 < (5 :: nat) \<longrightarrow> \<not> [5, 3, 4, 1, 2 :: nat] ! (0 + 2) < [5, 3, 4, 1, 2] ! (0 + 2 - 1))"
    and c: "[3, 5, 4, 1, 2 :: nat] = take 0 [5, 3, 4, 1, 2] @ rev (slice [5, 3, 4, 1, 2] 0 (0 + 2)) @ drop (0 + 2) [5, 3, 4, 1, 2]"
    by blast+
  from b have b': "\<not> [5, 3, 4, 1, 2 :: nat] ! 2 < [5, 3, 4, 1, 2 :: nat] ! 1" by simp
  from c have c': "[3, 5, 4, 1, 2 :: nat] = take 0 [5, 3, 4, 1, 2] @ rev (slice [5, 3, 4, 1, 2] 0 2) @ drop 2 [5, 3, 4, 1, 2]"
    by (simp only: add_0)
  show ?thesis by (intro conjI e h1 h2 a b' c')
qed

section \<open>Strict weak orderings and the merge\<close>

lemma swo_irrefl: "strict_weak_order cmp \<Longrightarrow> \<not> cmp a a"
  by (simp add: strict_weak_order_def)

lemma swo_trans: "strict_weak_order cmp \<Longrightarrow> cmp a b \<Longrightarrow> cmp b c \<Longrightarrow> cmp a c"
  unfolding strict_weak_order_def by blast

lemma swo_asym: "strict_weak_order cmp \<Longrightarrow> cmp a b \<Longrightarrow> \<not> cmp b a"
  using swo_trans[of cmp a b a] swo_irrefl[of cmp a] by blast

lemma swo_incomp_trans:
  "strict_weak_order cmp \<Longrightarrow> \<not> cmp a b \<Longrightarrow> \<not> cmp b a \<Longrightarrow> \<not> cmp b c \<Longrightarrow> \<not> cmp c b
     \<Longrightarrow> \<not> cmp a c \<and> \<not> cmp c a"
  unfolding strict_weak_order_def by blast

lemma swo_neg_trans:
  assumes "strict_weak_order cmp" "\<not> cmp a b" "\<not> cmp b c"
  shows "\<not> cmp a c"
proof
  assume ac: "cmp a c"
  have ba: "\<not> cmp b a"
  proof
    assume "cmp b a"
    from swo_trans[OF assms(1) this ac] assms(3) show False by simp
  qed
  have cb: "\<not> cmp c b"
  proof
    assume "cmp c b"
    from swo_trans[OF assms(1) ac this] assms(2) show False by simp
  qed
  from swo_incomp_trans[OF assms(1) assms(2) ba assms(3) cb] ac show False by simp
qed

lemma swo_transp: "strict_weak_order cmp \<Longrightarrow> transp (\<lambda>a b. \<not> cmp b a)"
proof (rule transpI)
  fix x y z assume a: "strict_weak_order cmp" "\<not> cmp y x" "\<not> cmp z y"
  from swo_neg_trans[OF a(1) a(3) a(2)] show "\<not> cmp z x" .
qed

lemma nondecreasing_adjacent:
  assumes "strict_weak_order cmp"
  shows "nondecreasing cmp xs \<longleftrightarrow> (\<forall>i. Suc i < length xs \<longrightarrow> \<not> cmp (xs ! Suc i) (xs ! i))"
  unfolding nondecreasing_def by (rule sorted_wrt_iff_nth_Suc_transp[OF swo_transp[OF assms]])

lemma nondecreasing_nth:
  "nondecreasing cmp xs \<Longrightarrow> i < j \<Longrightarrow> j < length xs \<Longrightarrow> \<not> cmp (xs ! j) (xs ! i)"
  unfolding nondecreasing_def by (simp add: sorted_wrt_iff_nth_less)

lemma nondecreasing_nth_le:
  "strict_weak_order cmp \<Longrightarrow> nondecreasing cmp xs \<Longrightarrow> i \<le> j \<Longrightarrow> j < length xs \<Longrightarrow> \<not> cmp (xs ! j) (xs ! i)"
  using nondecreasing_nth[of cmp xs i j] swo_irrefl[of cmp "xs ! i"] by (cases "i = j") auto

lemma nondecreasing_Cons:
  "nondecreasing cmp (x # xs) \<longleftrightarrow> (\<forall>y \<in> set xs. \<not> cmp y x) \<and> nondecreasing cmp xs"
  by (simp add: nondecreasing_def)

lemma nondecreasing_append:
  "nondecreasing cmp (xs @ ys) \<longleftrightarrow>
     nondecreasing cmp xs \<and> nondecreasing cmp ys \<and> (\<forall>x \<in> set xs. \<forall>y \<in> set ys. \<not> cmp y x)"
  by (simp add: nondecreasing_def sorted_wrt_append)

lemma nondecreasing_Nil [simp]: "nondecreasing cmp []"
  by (simp add: nondecreasing_def)

lemma nondecreasing_single [simp]: "nondecreasing cmp [x]"
  by (simp add: nondecreasing_def)

subsection \<open>The reference merge\<close>

lemma mset_merge_lists: "mset (merge_lists cmp ls rs) = mset ls + mset rs"
  by (induction cmp ls rs rule: merge_lists.induct) auto

lemma set_merge_lists: "set (merge_lists cmp ls rs) = set ls \<union> set rs"
  by (induction cmp ls rs rule: merge_lists.induct) auto

lemma length_merge_lists: "length (merge_lists cmp ls rs) = length ls + length rs"
  by (induction cmp ls rs rule: merge_lists.induct) auto

lemma nondecreasing_merge_lists:
  "strict_weak_order cmp \<Longrightarrow> nondecreasing cmp ls \<Longrightarrow> nondecreasing cmp rs
     \<Longrightarrow> nondecreasing cmp (merge_lists cmp ls rs)"
proof (induction cmp ls rs rule: merge_lists.induct)
  case (1 cmp rs) then show ?case by simp
next
  case (2 cmp v va) then show ?case by simp
next
  case (3 cmp l ls r rs)
  note swo = \<open>strict_weak_order cmp\<close>
  note ndl = \<open>nondecreasing cmp (l # ls)\<close>
  note ndr = \<open>nondecreasing cmp (r # rs)\<close>
  show ?case
  proof (cases "cmp l r")
    case True
    have "\<forall>y \<in> set (merge_lists cmp ls (r # rs)). \<not> cmp y l"
    proof
      fix y assume "y \<in> set (merge_lists cmp ls (r # rs))"
      then consider "y \<in> set ls" | "y = r" | "y \<in> set rs" by (auto simp: set_merge_lists)
      then show "\<not> cmp y l"
      proof cases
        case 1 with ndl show ?thesis by (simp add: nondecreasing_Cons)
      next
        case 2 with True swo_asym[OF swo] show ?thesis by blast
      next
        case 3
        with \<open>nondecreasing cmp (r # rs)\<close> have "\<not> cmp y r" by (simp add: nondecreasing_Cons)
        moreover have "\<not> cmp r l" using True swo_asym[OF swo] by blast
        ultimately show ?thesis by (rule swo_neg_trans[OF swo])
      qed
    qed
    moreover have "nondecreasing cmp (merge_lists cmp ls (r # rs))"
      using 3(1)[OF True swo _ ndr] ndl by (simp add: nondecreasing_Cons)
    ultimately show ?thesis using True by (simp add: nondecreasing_Cons)
  next
    case False
    have "\<forall>y \<in> set (merge_lists cmp (l # ls) rs). \<not> cmp y r"
    proof
      fix y assume "y \<in> set (merge_lists cmp (l # ls) rs)"
      then consider "y \<in> set rs" | "y = l" | "y \<in> set ls" by (auto simp: set_merge_lists)
      then show "\<not> cmp y r"
      proof cases
        case 1 with ndr show ?thesis by (simp add: nondecreasing_Cons)
      next
        case 2 with False show ?thesis by simp
      next
        case 3
        with \<open>nondecreasing cmp (l # ls)\<close> have "\<not> cmp y l" by (simp add: nondecreasing_Cons)
        then show ?thesis using False by (rule swo_neg_trans[OF swo])
      qed
    qed
    moreover have "nondecreasing cmp (merge_lists cmp (l # ls) rs)"
      using 3(2)[OF False swo ndl] ndr by (simp add: nondecreasing_Cons)
    ultimately show ?thesis using False by (simp add: nondecreasing_Cons)
  qed
qed

subsection \<open>The merge loop computes the reference merge\<close>

lemma merge_lists_Nil2 [simp]: "merge_lists cmp ls [] = ls"
  by (cases ls) auto

lemma mergeRuns_loop_correct:
  assumes "left \<le> leftEnd" "leftEnd \<le> length buffer" "right \<le> rightEnd" "rightEnd \<le> length arr"
    and "dest + (leftEnd - left) = right"
    and "mergeRuns_loop mv cmp leftEnd rightEnd arr buffer left right dest c
           = (arr', buffer', left', dest', c')"
  shows "(if left' \<noteq> leftEnd then move_range buffer' left' leftEnd arr' dest' else arr')
          = take dest arr @ merge_lists cmp (slice buffer left leftEnd) (slice arr right rightEnd)
              @ drop rightEnd arr"
  using assms
proof (induction mv cmp leftEnd rightEnd arr buffer left right dest c rule: mergeRuns_loop.induct)
  case (1 mv cmp leftEnd rightEnd arr buffer left right dest c)
  show ?case
  proof (cases "left < leftEnd \<and> right < rightEnd")
    case False
    then have "mergeRuns_loop mv cmp leftEnd rightEnd arr buffer left right dest c
                 = (arr, buffer, left, dest, c)"
      by (subst mergeRuns_loop.simps) auto
    with 1(8) have e: "arr' = arr" "buffer' = buffer" "left' = left" "dest' = dest" by simp_all
    show ?thesis
    proof (cases "left = leftEnd")
      case True
      with 1(7) have "dest = right" by simp
      with True e 1(5) slice_split[of right rightEnd arr] show ?thesis by simp
    next
      case l: False
      with False 1(3,5) have r: "right = rightEnd" by simp
      from l 1(3) have "left < leftEnd" by simp
      then have "dest + (leftEnd - left) = rightEnd" using 1(7) r by simp
      with l e r show ?thesis by (simp add: move_range_def)
    qed
  next
    case True
    then have lt: "left < leftEnd" "right < rightEnd" by auto
    from lt 1(4,6) have inb: "left < length buffer" "right < length arr" by auto
    from lt 1(7) have dr: "dest < right" by simp
    have L: "slice buffer left leftEnd = buffer ! left # slice buffer (Suc left) leftEnd"
      using lt inb by (intro slice_Cons)
    have R: "slice arr right rightEnd = arr ! right # slice arr (Suc right) rightEnd"
      using lt inb by (intro slice_Cons)
    show ?thesis
    proof (cases "cmp (buffer ! left) (arr ! right)")
      case c: True
      let ?arr = "arr[dest := buffer ! left]"
      let ?buf = "buffer[left := mv (buffer ! left)]"
      have e: "mergeRuns_loop mv cmp leftEnd rightEnd arr buffer left right dest c
                = mergeRuns_loop mv cmp leftEnd rightEnd ?arr ?buf (left + 1) right (dest + 1) (c + 1)"
        using True c by (subst mergeRuns_loop.simps) simp
      have "(if left' \<noteq> leftEnd then move_range buffer' left' leftEnd arr' dest' else arr')
          = take (dest + 1) ?arr @ merge_lists cmp (slice ?buf (left + 1) leftEnd) (slice ?arr right rightEnd)
              @ drop rightEnd ?arr"
        using 1(1)[OF True c] lt 1(4,5,6,7,8) e by simp
      moreover have "take (dest + 1) ?arr = take dest arr @ [buffer ! left]"
        using dr inb by (simp add: take_Suc_conv_app_nth)
      moreover have "slice ?arr right rightEnd = slice arr right rightEnd"
        using dr by (simp add: slice_def)
      moreover have "slice ?buf (left + 1) leftEnd = slice buffer (Suc left) leftEnd"
        by (simp add: slice_def)
      moreover have "drop rightEnd ?arr = drop rightEnd arr"
        using dr lt by simp
      ultimately show ?thesis using c L R by simp
    next
      case c: False
      let ?arr = "(arr[dest := arr ! right])[right := mv (arr ! right)]"
      have e: "mergeRuns_loop mv cmp leftEnd rightEnd arr buffer left right dest c
                = mergeRuns_loop mv cmp leftEnd rightEnd ?arr buffer left (right + 1) (dest + 1) (c + 1)"
        using True c by (subst mergeRuns_loop.simps) simp
      have "(if left' \<noteq> leftEnd then move_range buffer' left' leftEnd arr' dest' else arr')
          = take (dest + 1) ?arr @ merge_lists cmp (slice buffer left leftEnd) (slice ?arr (right + 1) rightEnd)
              @ drop rightEnd ?arr"
        using 1(2)[OF True c] lt 1(3,4,5,6,7,8) e by simp
      moreover have "take (dest + 1) ?arr = take dest arr @ [arr ! right]"
        using dr inb by (simp add: take_Suc_conv_app_nth)
      moreover have "slice ?arr (right + 1) rightEnd = slice arr (Suc right) rightEnd"
        using dr by (simp add: slice_def)
      moreover have "drop rightEnd ?arr = drop rightEnd arr"
        using dr lt by simp
      ultimately show ?thesis using c L R by simp
    qed
  qed
qed

lemma moved_out_outside:
  assumes "a \<le> b" "b \<le> length xs"
  shows "length (moved_out mv xs a b) = length xs"
    and "take a (moved_out mv xs a b) = take a xs"
    and "drop b (moved_out mv xs a b) = drop b xs"
proof -
  have m: "moved_out mv xs a b = take a xs @ map mv (slice xs a b) @ drop b xs"
    using assms(1) by (simp add: moved_out_def max_def)
  have l: "length (map mv (slice xs a b)) = b - a" using assms by simp
  show "length (moved_out mv xs a b) = length xs" unfolding m using assms l by simp
  show "take a (moved_out mv xs a b) = take a xs" unfolding m using assms by simp
  show "drop b (moved_out mv xs a b) = drop b xs" unfolding m
    using assms l by (intro drop_replace_mid) auto
qed

lemma moved_out_id: "(\<forall>x. mv x = x) \<Longrightarrow> moved_out mv xs a b = xs"
proof -
  assume "\<forall>x. mv x = x"
  then have "map mv (slice xs a b) = slice xs a b" by (simp add: map_idI)
  then have "moved_out mv xs a b = take a xs @ slice xs a (max a b) @ drop (max a b) xs"
    by (simp add: moved_out_def slice_def max_def)
  then show ?thesis using slice_split[of a "max a b" xs] by simp
qed

lemma mergeRuns_correct:
  assumes "start \<le> mid" "mid \<le> end'" "end' \<le> length arr"
    and "mergeRuns mv cmp start mid end' (arr, buffer, c) = (arr', buffer', c')"
  shows "arr' = take start arr @ merge_lists cmp (slice arr start mid) (slice arr mid end') @ drop end' arr"
proof -
  let ?buf = "move_range arr start mid buffer 0"
  let ?arr = "moved_out mv arr start mid"
  have ml: "mid \<le> length arr" using assms(2,3) by simp
  note mo = moved_out_outside[OF assms(1) ml, of mv]
  have b: "slice ?buf 0 (mid - start) = slice arr start mid" "mid - start \<le> length ?buf"
    using assms(1,2,3) by (simp_all add: move_range_def slice_def)
  have a1: "take start ?arr = take start arr" by (rule mo(2))
  have a2: "slice ?arr mid end' = slice arr mid end'" using mo(3) by (simp add: slice_def)
  have "drop (end' - mid) (drop mid ?arr) = drop (end' - mid) (drop mid arr)" using mo(3) by simp
  then have a3: "drop end' ?arr = drop end' arr" using assms(2) by simp
  obtain a bf l d k where
    lp: "mergeRuns_loop mv cmp (mid - start) end' ?arr ?buf 0 mid start c = (a, bf, l, d, k)"
    by (cases "mergeRuns_loop mv cmp (mid - start) end' ?arr ?buf 0 mid start c") auto
  from assms(4) lp have "arr' = (if l \<noteq> mid - start then move_range bf l (mid - start) a d else a)"
    by (simp add: mergeRuns.simps Let_def)
  also have "\<dots> = take start ?arr @ merge_lists cmp (slice ?buf 0 (mid - start)) (slice ?arr mid end')
              @ drop end' ?arr"
    using assms(1,2,3) b(2) mo(1) by (intro mergeRuns_loop_correct[OF _ _ _ _ _ lp]) auto
  finally show ?thesis using b(1) a1 a2 a3 by simp
qed

section \<open>Binary insertion\<close>

subsection \<open>The binary search\<close>

lemma upper_bound_loop_range:
  "upper_bound_loop cmp xs val first len c = (pos, c') \<Longrightarrow> first \<le> pos \<and> pos \<le> first + len"
proof (induction cmp xs val first len c rule: upper_bound_loop.induct)
  case (1 cmp xs val first len c)
  show ?case
  proof (cases "0 < len")
    case False
    with 1(3) show ?thesis by (simp add: upper_bound_loop.simps[of cmp xs val first len c])
  next
    case True
    show ?thesis
    proof (cases "cmp val (xs ! (first + len div 2))")
      case c: True
      with True 1(3) have "upper_bound_loop cmp xs val first (len div 2) (c + 1) = (pos, c')"
        by (simp add: upper_bound_loop.simps[of cmp xs val first len c] Let_def)
      from 1(1)[OF True refl refl _ this] c show ?thesis by auto
    next
      case c: False
      with True 1(3) have
        "upper_bound_loop cmp xs val (first + len div 2 + 1) (len - len div 2 - 1) (c + 1) = (pos, c')"
        by (simp add: upper_bound_loop.simps[of cmp xs val first len c] Let_def)
      from 1(2)[OF True refl refl _ this] c True show ?thesis by auto
    qed
  qed
qed

lemma upper_bound_loop_partition:
  assumes "strict_weak_order cmp"
    and "\<forall>i j. first \<le> i \<and> i \<le> j \<and> j < first + len \<longrightarrow> \<not> cmp (xs ! j) (xs ! i)"
    and "upper_bound_loop cmp xs val first len c = (pos, c')"
  shows "(\<forall>j. first \<le> j \<and> j < pos \<longrightarrow> \<not> cmp val (xs ! j)) \<and>
         (\<forall>j. pos \<le> j \<and> j < first + len \<longrightarrow> cmp val (xs ! j))"
  using assms
proof (induction cmp xs val first len c rule: upper_bound_loop.induct)
  case (1 cmp xs val first len c)
  note swo = \<open>strict_weak_order cmp\<close>
  note srt = 1(4)
  show ?case
  proof (cases "0 < len")
    case False
    with 1(5) show ?thesis by (auto simp add: upper_bound_loop.simps[of cmp xs val first len c])
  next
    case True
    let ?mid = "first + len div 2"
    have m: "?mid < first + len" using True by simp
    show ?thesis
    proof (cases "cmp val (xs ! ?mid)")
      case c: True
      with True 1(5) have e: "upper_bound_loop cmp xs val first (len div 2) (c + 1) = (pos, c')"
        by (simp add: upper_bound_loop.simps[of cmp xs val first len c] Let_def)
      have "\<forall>i j. first \<le> i \<and> i \<le> j \<and> j < first + len div 2 \<longrightarrow> \<not> cmp (xs ! j) (xs ! i)"
        using srt m by simp
      from 1(1)[OF True refl refl c swo this e]
      have ih: "\<forall>j. first \<le> j \<and> j < pos \<longrightarrow> \<not> cmp val (xs ! j)"
               "\<forall>j. pos \<le> j \<and> j < ?mid \<longrightarrow> cmp val (xs ! j)" by auto
      have "\<forall>j. pos \<le> j \<and> j < first + len \<longrightarrow> cmp val (xs ! j)"
      proof (intro allI impI)
        fix j assume j: "pos \<le> j \<and> j < first + len"
        show "cmp val (xs ! j)"
        proof (cases "j < ?mid")
          case True with j ih(2) show ?thesis by simp
        next
          case False
          with j srt have "\<not> cmp (xs ! j) (xs ! ?mid)" by simp
          with swo_neg_trans[OF swo, of val "xs ! j" "xs ! ?mid"] c show ?thesis by blast
        qed
      qed
      with ih(1) show ?thesis by simp
    next
      case c: False
      with True 1(5) have e:
        "upper_bound_loop cmp xs val (?mid + 1) (len - len div 2 - 1) (c + 1) = (pos, c')"
        by (simp add: upper_bound_loop.simps[of cmp xs val first len c] Let_def)
      have en: "?mid + 1 + (len - len div 2 - 1) = first + len" using True by simp
      have "\<forall>i j. ?mid + 1 \<le> i \<and> i \<le> j \<and> j < ?mid + 1 + (len - len div 2 - 1) \<longrightarrow> \<not> cmp (xs ! j) (xs ! i)"
        unfolding en using srt by simp
      from 1(2)[OF True refl refl c swo this e]
      have ih: "\<forall>j. ?mid + 1 \<le> j \<and> j < pos \<longrightarrow> \<not> cmp val (xs ! j)"
               "\<forall>j. pos \<le> j \<and> j < first + len \<longrightarrow> cmp val (xs ! j)" unfolding en by auto
      have "\<forall>j. first \<le> j \<and> j < pos \<longrightarrow> \<not> cmp val (xs ! j)"
      proof (intro allI impI)
        fix j assume j: "first \<le> j \<and> j < pos"
        show "\<not> cmp val (xs ! j)"
        proof (cases "?mid + 1 \<le> j")
          case True with j ih(1) show ?thesis by simp
        next
          case False
          with j srt m have "\<not> cmp (xs ! ?mid) (xs ! j)" by simp
          with swo_neg_trans[OF swo, of val "xs ! ?mid" "xs ! j"] c show ?thesis by blast
        qed
      qed
      with ih(2) show ?thesis by simp
    qed
  qed
qed

subsection \<open>Shifting a range up by one cell\<close>

lemma move_backward_shift:
  "first < last' \<Longrightarrow> last' < length xs \<Longrightarrow> d_last = last' + 1 \<Longrightarrow>
   move_backward mv xs first last' d_last
     = take first xs @ [mv (xs ! first)] @ slice xs first last' @ drop (last' + 1) xs"
proof (induction mv xs first last' d_last rule: move_backward.induct)
  case (1 mv xs first last' d_last)
  let ?xs = "(xs[d_last - 1 := xs ! (last' - 1)])[last' - 1 := mv (xs ! (last' - 1))]"
  have dl: "d_last - 1 = last'" using 1(4) by simp
  have e: "move_backward mv xs first last' d_last = move_backward mv ?xs first (last' - 1) (d_last - 1)"
    using 1(2) by (simp add: move_backward.simps[of mv xs first last' d_last])
  have sn: "slice xs first last' = slice xs first (last' - 1) @ [xs ! (last' - 1)]"
    using slice_snoc[of first "last' - 1" xs] 1(2,3) by simp
  have dr: "drop last' ?xs = xs ! (last' - 1) # drop (last' + 1) xs"
  proof -
    have "last' < length ?xs" using 1(3) by simp
    from Cons_nth_drop_Suc[OF this] 1(2,3) show ?thesis unfolding dl by simp
  qed
  show ?case
  proof (cases "first < last' - 1")
    case True
    have "move_backward mv ?xs first (last' - 1) (d_last - 1)
           = take first ?xs @ [mv (?xs ! first)] @ slice ?xs first (last' - 1) @ drop (last' - 1 + 1) ?xs"
      using 1(2,3,4) True by (intro 1(1)) auto
    moreover have "take first ?xs = take first xs" using True unfolding dl by simp
    moreover have "?xs ! first = xs ! first" using True unfolding dl by simp
    moreover have "slice ?xs first (last' - 1) = slice xs first (last' - 1)"
      unfolding dl by (simp add: slice_alt)
    moreover have "last' - 1 + 1 = last'" using 1(2) by simp
    ultimately show ?thesis using e sn dr by simp
  next
    case False
    with 1(2) have f: "first = last' - 1" by simp
    have m: "move_backward mv ?xs first (last' - 1) (d_last - 1) = ?xs"
      using f by (subst move_backward.simps) simp
    have fl: "first < length ?xs" using 1(2,3) by simp
    have t: "take first ?xs = take first xs" using f 1(2) unfolding dl by simp
    have n: "?xs ! first = mv (xs ! first)" using f 1(2,3) unfolding dl by simp
    have sf: "Suc first = last'" using f 1(2) by simp
    have s0: "slice xs first (last' - 1) = []" using f by simp
    have "move_backward mv xs first last' d_last = ?xs" using e m by simp
    also have "\<dots> = take first ?xs @ ?xs ! first # drop (Suc first) ?xs"
      using fl by (rule id_take_nth_drop)
    also have "\<dots> = take first xs @ [mv (xs ! first)] @ drop last' ?xs"
      by (simp only: t n sf append_Cons append_Nil)
    also have "\<dots> = take first xs @ [mv (xs ! first)] @ slice xs first last' @ drop (last' + 1) xs"
      by (simp only: dr sn s0 append_Cons append_Nil)
    finally show ?thesis .
  qed
qed

lemma insert_by_move_backward:
  assumes "pos < it" "it < length xs"
  shows "(move_backward mv (xs[it := v]) pos it (it + 1))[pos := key]
           = take pos xs @ [key] @ slice xs pos it @ drop (Suc it) xs"
proof -
  let ?xs = "xs[it := v]"
  have "move_backward mv ?xs pos it (it + 1)
          = take pos ?xs @ [mv (?xs ! pos)] @ slice ?xs pos it @ drop (it + 1) ?xs"
    using assms by (intro move_backward_shift) auto
  moreover have "take pos ?xs = take pos xs" using assms by simp
  moreover have "slice ?xs pos it = slice xs pos it" by (simp add: slice_alt)
  moreover have "drop (it + 1) ?xs = drop (Suc it) xs" by simp
  ultimately have "move_backward mv ?xs pos it (it + 1)
          = take pos xs @ [mv (?xs ! pos)] @ slice xs pos it @ drop (Suc it) xs" by simp
  then show ?thesis using assms by (simp add: list_update_append)
qed

text \<open>The vector after one insertion, and its ranges.\<close>

lemma insertion_slices:
  assumes "left \<le> pos" "pos \<le> it" "it < right" "right \<le> length xs"
    and "xs1 = take pos xs @ [xs ! it] @ slice xs pos it @ drop (Suc it) xs"
  shows "length xs1 = length xs" "take left xs1 = take left xs" "drop right xs1 = drop right xs"
    "slice xs1 left (Suc it) = slice xs left pos @ [xs ! it] @ slice xs pos it"
    "slice xs1 (Suc it) right = slice xs (Suc it) right"
proof -
  let ?m = "[xs ! it] @ slice xs pos it"
  have lm: "length ?m = Suc it - pos" using assms by simp
  have x: "xs1 = take pos xs @ ?m @ drop (Suc it) xs" using assms(5) by simp
  show "length xs1 = length xs" unfolding x using assms lm by simp
  show "take left xs1 = take left xs" unfolding x using assms by simp
  show "drop right xs1 = drop right xs" unfolding x
    using assms lm by (intro drop_replace_mid) auto
  have "length (take pos xs @ ?m) = Suc it" using assms by simp
  then have "take (Suc it) ((take pos xs @ ?m) @ drop (Suc it) xs) = take pos xs @ ?m"
    by (metis append_eq_conv_conj)
  then have "take (Suc it) xs1 = take pos xs @ ?m" unfolding x by simp
  then have "slice xs1 left (Suc it) = drop left (take pos xs @ ?m)" by (simp add: slice_alt)
  also have "\<dots> = slice xs left pos @ ?m" using assms by (simp add: slice_alt)
  finally show "slice xs1 left (Suc it) = slice xs left pos @ [xs ! it] @ slice xs pos it" by simp
  have "drop (Suc it) xs1 = drop (Suc it) xs" unfolding x
    using assms lm by (intro drop_replace_mid) auto
  then show "slice xs1 (Suc it) right = slice xs (Suc it) right" by (simp add: slice_def)
qed

section \<open>Rearrangements inside a range\<close>

lemma permuted_within_refl [simp]: "permuted_within a b xs xs"
  by (simp add: permuted_within_def)

lemma permuted_within_replace:
  assumes "a \<le> b" "b \<le> length xs" "mset m = mset (slice xs a b)"
  shows "permuted_within a b xs (take a xs @ m @ drop b xs)"
proof -
  have "length m = length (slice xs a b)" using assms(3) by (rule mset_eq_length)
  then have l: "length m = b - a" using assms(1,2) by simp
  have "drop b (take a xs @ m @ drop b xs) = drop b xs"
    using assms l by (intro drop_replace_mid) auto
  moreover have "slice (take a xs @ m @ drop b xs) a b = m"
    using assms l by (intro slice_replace_mid) auto
  ultimately show ?thesis using assms l by (simp add: permuted_within_def)
qed

lemma permuted_within_mset:
  assumes "permuted_within a b xs ys" "a \<le> b"
  shows "mset ys = mset xs"
proof -
  have "mset ys = mset (take a ys @ slice ys a b @ drop b ys)" using slice_split[OF assms(2)] by metis
  also have "\<dots> = mset (take a xs @ slice xs a b @ drop b xs)"
    using assms(1) by (simp add: permuted_within_def)
  also have "\<dots> = mset xs" using slice_split[OF assms(2)] by metis
  finally show ?thesis .
qed

lemma permuted_within_widen:
  assumes "permuted_within a b xs ys" "a' \<le> a" "a \<le> b" "b \<le> b'"
  shows "permuted_within a' b' xs ys"
proof -
  from assms(1) have l: "length ys = length xs" and t: "take a ys = take a xs"
    and d: "drop b ys = drop b xs" and m: "mset (slice ys a b) = mset (slice xs a b)"
    by (simp_all add: permuted_within_def)
  have t': "take a' ys = take a' xs"
    using t assms(2) by (metis min.absorb1 take_take)
  have d': "drop b' ys = drop b' xs"
    using d assms(4) by (metis le_add_diff_inverse2 drop_drop)
  have s1: "slice ys a' a = slice xs a' a" using t by (simp add: slice_alt)
  have s2: "slice ys b b' = slice xs b b'" using d by (simp add: slice_def)
  have "slice ys a' b' = slice ys a' a @ slice ys a b @ slice ys b b'"
    using assms(2,3,4) by (simp add: slice_append)
  moreover have "slice xs a' b' = slice xs a' a @ slice xs a b @ slice xs b b'"
    using assms(2,3,4) by (simp add: slice_append)
  ultimately have "mset (slice ys a' b') = mset (slice xs a' b')" using s1 s2 m by simp
  with l t' d' show ?thesis by (simp add: permuted_within_def)
qed

lemma permuted_within_trans:
  "permuted_within a b xs ys \<Longrightarrow> permuted_within a b ys zs \<Longrightarrow> permuted_within a b xs zs"
  by (simp add: permuted_within_def)

lemma permuted_within_slice_before:
  assumes "permuted_within a b xs ys" "j \<le> a"
  shows "slice ys i j = slice xs i j"
proof -
  from assms(1) have "take a ys = take a xs" by (simp add: permuted_within_def)
  then have "take j ys = take j xs" using assms(2) by (metis min.absorb1 take_take)
  then show ?thesis by (simp add: slice_alt)
qed

lemma in_set_slice:
  assumes "x \<in> set (slice xs i j)" "j \<le> length xs"
  shows "\<exists>k. i \<le> k \<and> k < j \<and> x = xs ! k"
proof -
  from assms(1) obtain m where m: "m < length (slice xs i j)" "x = slice xs i j ! m"
    by (auto simp: in_set_conv_nth)
  then have "m < j - i" by simp
  with m(2) assms(2) have "x = xs ! (i + m)" by (simp add: slice_nth)
  with \<open>m < j - i\<close> show ?thesis by (intro exI[of _ "i + m"]) auto
qed

lemma nondecreasing_slice_nth:
  assumes "strict_weak_order cmp" "nondecreasing cmp (slice xs a b)" "b \<le> length xs"
    and "a \<le> i" "i \<le> j" "j < b"
  shows "\<not> cmp (xs ! j) (xs ! i)"
proof -
  have "\<not> cmp (slice xs a b ! (j - a)) (slice xs a b ! (i - a))"
    using assms by (intro nondecreasing_nth_le) auto
  moreover have "slice xs a b ! (j - a) = xs ! j" "slice xs a b ! (i - a) = xs ! i"
    using assms by (simp_all add: slice_nth)
  ultimately show ?thesis by simp
qed

lemma nondecreasing_insert:
  assumes "strict_weak_order cmp" "nondecreasing cmp (A @ B)"
    and "\<forall>x \<in> set A. \<not> cmp key x" "\<forall>y \<in> set B. cmp key y"
  shows "nondecreasing cmp (A @ [key] @ B)"
proof -
  have "\<forall>y \<in> set B. \<not> cmp y key" using assms(4) swo_asym[OF assms(1)] by blast
  with assms(2,3) show ?thesis by (auto simp: nondecreasing_append nondecreasing_Cons)
qed

subsection \<open>Binary insertion sort\<close>

lemma binaryInsertionSort_loop_correct:
  assumes "left \<le> it" "it \<le> right" "right \<le> length xs"
    and "binaryInsertionSort_loop mv cmp left right it (xs, c) = (ys, c')"
    and "\<forall>x. mv x = x"
  shows "permuted_within left right xs ys \<and>
         (strict_weak_order cmp \<and> nondecreasing cmp (slice xs left it)
            \<longrightarrow> nondecreasing cmp (slice ys left right))"
  using assms
proof (induction mv cmp left right it "(xs, c)" arbitrary: xs c rule: binaryInsertionSort_loop.induct)
  case (1 mv cmp left right it xs c)
  show ?case
  proof (cases "it < right")
    case False
    with 1(3) have "it = right" by simp
    moreover from False 1(5) have "ys = xs"
      by (simp add: binaryInsertionSort_loop.simps[of mv cmp left right it xs c])
    ultimately show ?thesis by simp
  next
    case True
    define key where "key = xs ! it"
    define xs0 where "xs0 = xs[it := mv key]"
    have x0: "xs0 = xs" using 1(6) by (simp add: xs0_def key_def)
    obtain pos c1 where ub0: "upper_bound cmp xs0 left it key c = (pos, c1)"
      by (cases "upper_bound cmp xs0 left it key c") auto
    then have ub: "upper_bound cmp xs left it key c = (pos, c1)" by (simp add: x0)
    define xs1 where "xs1 = (if pos \<noteq> it then (move_backward mv xs0 pos it (it + 1))[pos := key] else xs0)"
    have ubl: "upper_bound_loop cmp xs key left (it - left) c = (pos, c1)"
      using ub by (simp add: upper_bound_def)
    from upper_bound_loop_range[OF ubl] 1(2) have pos: "left \<le> pos" "pos \<le> it" by auto
    have itl: "it < length xs" using True 1(4) by simp
    have x1: "xs1 = take pos xs @ [xs ! it] @ slice xs pos it @ drop (Suc it) xs"
    proof (cases "pos = it")
      case True
      then show ?thesis using itl by (simp add: xs1_def x0 id_take_nth_drop[symmetric])
    next
      case False
      with pos have "pos < it" by simp
      from insert_by_move_backward[OF this itl, of mv "mv key" key] False show ?thesis
        by (simp add: xs1_def xs0_def key_def)
    qed
    note sl = insertion_slices[OF pos True 1(4) x1]
    have e: "binaryInsertionSort_loop mv cmp left right it (xs, c)
              = binaryInsertionSort_loop mv cmp left right (it + 1) (xs1, c1)"
      unfolding xs1_def using True ub0 unfolding xs0_def key_def
      by (simp add: binaryInsertionSort_loop.simps[of mv cmp left right it xs c] Let_def)
    have ih: "permuted_within left right xs1 ys \<and>
         (strict_weak_order cmp \<and> nondecreasing cmp (slice xs1 left (it + 1))
            \<longrightarrow> nondecreasing cmp (slice ys left right))"
    proof (rule 1(1)[OF True key_def xs0_def ub0[symmetric] refl xs1_def])
      show "\<forall>x. mv x = x" by (rule 1(6))
      show "left \<le> it + 1" using 1(2) by simp
      show "it + 1 \<le> right" using True by simp
      show "right \<le> length xs1" using sl(1) 1(4) by simp
      show "binaryInsertionSort_loop mv cmp left right (it + 1) (xs1, c1) = (ys, c')"
        using e 1(5) by simp
    qed
    have sx: "slice xs left right = slice xs left pos @ slice xs pos it @ [xs ! it] @ slice xs (Suc it) right"
    proof -
      have "slice xs it right = xs ! it # slice xs (Suc it) right"
        using True itl by (rule slice_Cons)
      moreover have "slice xs left pos @ slice xs pos it @ slice xs it right = slice xs left right"
        using pos True by (simp add: slice_append)
      ultimately show ?thesis by simp
    qed
    have sx1: "slice xs1 left right = slice xs1 left (Suc it) @ slice xs1 (Suc it) right"
      using 1(2) True by (simp add: slice_append)
    have "mset (slice xs1 left right) = mset (slice xs left right)"
      unfolding sx sx1 sl(4) sl(5) by simp
    with sl(1,2,3) have "permuted_within left right xs xs1" by (simp add: permuted_within_def)
    then have p: "permuted_within left right xs ys"
      using ih permuted_within_trans[of left right xs xs1 ys] by simp
    have "nondecreasing cmp (slice ys left right)"
      if swo: "strict_weak_order cmp" and nd: "nondecreasing cmp (slice xs left it)"
    proof -
      have il: "it \<le> length xs" using itl by simp
      have srt: "\<forall>i j. left \<le> i \<and> i \<le> j \<and> j < left + (it - left) \<longrightarrow> \<not> cmp (xs ! j) (xs ! i)"
        using nondecreasing_slice_nth[OF swo nd il] 1(2) by auto
      note part = upper_bound_loop_partition[OF swo srt ubl]
      have A: "\<forall>x \<in> set (slice xs left pos). \<not> cmp key x"
      proof
        fix x assume "x \<in> set (slice xs left pos)"
        with in_set_slice[of x xs left pos] pos il obtain k where "left \<le> k" "k < pos" "x = xs ! k"
          by auto
        with part show "\<not> cmp key x" by simp
      qed
      have B: "\<forall>y \<in> set (slice xs pos it). cmp key y"
      proof
        fix y assume "y \<in> set (slice xs pos it)"
        with in_set_slice[of y xs pos it] il obtain k where "pos \<le> k" "k < it" "y = xs ! k"
          by auto
        with part 1(2) show "cmp key y" by simp
      qed
      have "nondecreasing cmp (slice xs left pos @ slice xs pos it)"
        using nd pos by (simp add: slice_append)
      from nondecreasing_insert[OF swo this A B]
      have "nondecreasing cmp (slice xs1 left (it + 1))" using sl(4) by (simp add: key_def)
      with ih swo show ?thesis by simp
    qed
    with p show ?thesis by simp
  qed
qed

lemma slice_single: "i < length xs \<Longrightarrow> slice xs i (Suc i) = [xs ! i]"
  using slice_Cons[of i "Suc i" xs] by simp

lemma binaryInsertionSort_correct:
  assumes "left < right" "right \<le> length xs"
    and "binaryInsertionSort mv cmp left right (xs, c) = (ys, c')"
    and "\<forall>x. mv x = x"
  shows "permuted_within left right xs ys \<and>
         (strict_weak_order cmp \<longrightarrow> nondecreasing cmp (slice ys left right))"
proof -
  have "slice xs left (left + 1) = [xs ! left]"
    using assms by (simp add: slice_single)
  then have "nondecreasing cmp (slice xs left (left + 1))" by simp
  with binaryInsertionSort_loop_correct[of left "left + 1" right xs mv cmp c ys c'] assms
  show ?thesis by (simp add: binaryInsertionSort_def)
qed

subsection \<open>The run detector and the extension\<close>

lemma reverse_range_permuted:
  assumes "a \<le> b" "b \<le> length xs"
  shows "permuted_within a b xs (reverse_range xs a b)"
  unfolding reverse_range_def using assms by (intro permuted_within_replace) auto

lemma slice_reverse_range:
  assumes "a \<le> b" "b \<le> length xs"
  shows "slice (reverse_range xs a b) a b = rev (slice xs a b)"
  unfolding reverse_range_def using assms by (intro slice_replace_mid) auto

lemma nondecreasing_from_adjacent:
  assumes "strict_weak_order cmp" "b \<le> length xs"
    and "\<forall>i. 1 \<le> i \<and> i < b - a \<longrightarrow> \<not> cmp (xs ! (a + i)) (xs ! (a + i - 1))"
  shows "nondecreasing cmp (slice xs a b)"
proof -
  have "\<forall>i. Suc i < length (slice xs a b) \<longrightarrow> \<not> cmp (slice xs a b ! Suc i) (slice xs a b ! i)"
  proof (intro allI impI)
    fix i assume "Suc i < length (slice xs a b)"
    then have i: "Suc i < b - a" by simp
    then have "slice xs a b ! Suc i = xs ! (a + Suc i)" "slice xs a b ! i = xs ! (a + i)"
      using assms(2) by (simp_all add: slice_nth)
    moreover have "\<not> cmp (xs ! (a + Suc i)) (xs ! (a + Suc i - 1))"
    proof -
      have "1 \<le> Suc i \<and> Suc i < b - a" using i by simp
      then show ?thesis by (rule assms(3)[rule_format])
    qed
    ultimately show "\<not> cmp (slice xs a b ! Suc i) (slice xs a b ! i)" by simp
  qed
  then show ?thesis by (simp only: nondecreasing_adjacent[OF assms(1)])
qed

lemma detectRun_correct:
  assumes "start < n" "n \<le> length xs"
    and "detectRun cmp n start (xs, c) = (ys, runLen, c')"
  shows "1 \<le> runLen \<and> start + runLen \<le> n \<and>
         permuted_within start (start + runLen) xs ys \<and>
         (strict_weak_order cmp \<longrightarrow> nondecreasing cmp (slice ys start (start + runLen)))"
proof -
  note b = detectRun_bounds[OF assms(1,3)]
  show ?thesis
  proof (cases "start + 1 < n")
    case False
    with assms(3) have e: "runLen = 1" "ys = xs" by (simp_all add: detectRun.simps)
    have "slice xs start (start + 1) = [xs ! start]"
      using assms(1,2) by (simp add: slice_single)
    with e b show ?thesis by simp
  next
    case s: True
    show ?thesis
    proof (cases "cmp (xs ! (start + 1)) (xs ! start)")
      case True
      obtain k c1 where d: "descending_run cmp xs n start 1 (c + 1) = (k, c1)"
        by (cases "descending_run cmp xs n start 1 (c + 1)") auto
      with assms(3) s True have r: "runLen = k" "ys = reverse_range xs start (start + k)"
        by (auto simp add: detectRun.simps)
      have p: "\<forall>i. 1 \<le> i \<and> i < k \<longrightarrow> cmp (xs ! (start + i)) (xs ! (start + i - 1))"
        using descending_run_spec[OF _ d] by simp
      have kl: "start + k \<le> length xs" using b r assms(2) by simp
      have "nondecreasing cmp (slice ys start (start + k))" if swo: "strict_weak_order cmp"
      proof -
        have "\<forall>i. 1 \<le> i \<and> i < start + k - start \<longrightarrow> \<not> cmp (ys ! (start + i)) (ys ! (start + i - 1))"
        proof (intro allI impI)
          fix i assume i: "1 \<le> i \<and> i < start + k - start"
          then have "i - 1 + 1 < k" by simp
          from reversed_run_ascending[OF kl p this]
          have "cmp (ys ! (start + i - 1)) (ys ! (start + i))" using i r by simp
          with swo_asym[OF swo] show "\<not> cmp (ys ! (start + i)) (ys ! (start + i - 1))" by blast
        qed
        moreover have "start + k \<le> length ys" using kl r by (simp add: reverse_range_def)
        ultimately show ?thesis by (intro nondecreasing_from_adjacent[OF swo])
      qed
      with b r reverse_range_permuted[of start "start + k" xs] kl show ?thesis by simp
    next
      case False
      obtain k c1 where d: "ascending_run cmp xs n start 1 (c + 1) = (k, c1)"
        by (cases "ascending_run cmp xs n start 1 (c + 1)") auto
      with assms(3) s False have r: "runLen = k" "ys = xs"
        by (auto simp add: detectRun.simps)
      have p: "\<forall>i. 1 \<le> i \<and> i < k \<longrightarrow> \<not> cmp (xs ! (start + i)) (xs ! (start + i - 1))"
        using ascending_run_spec[OF _ d] by simp
      have kl: "start + k \<le> length xs" using b r assms(2) by simp
      have "nondecreasing cmp (slice xs start (start + k))" if swo: "strict_weak_order cmp"
        using p kl by (intro nondecreasing_from_adjacent[OF swo]) auto
      with b r show ?thesis by simp
    qed
  qed
qed

lemma nextRun_correct:
  assumes "start < n" "n \<le> length xs"
    and "nextRun mv cmp n minRun start (xs, c) = (ys, runLen, c')"
    and "\<forall>x. mv x = x"
  shows "1 \<le> runLen \<and> start + runLen \<le> n \<and>
         permuted_within start (start + runLen) xs ys \<and>
         (strict_weak_order cmp \<longrightarrow> nondecreasing cmp (slice ys start (start + runLen)))"
proof -
  obtain xs1 l1 c1 where d: "detectRun cmp n start (xs, c) = (xs1, l1, c1)"
    by (cases "detectRun cmp n start (xs, c)") auto
  note dc = detectRun_correct[OF assms(1,2) d]
  show ?thesis
  proof (cases "l1 < minRun")
    case False
    with assms(3) d have "runLen = l1" "ys = xs1" by (auto simp: nextRun.simps)
    with dc show ?thesis by simp
  next
    case True
    define force where "force = min minRun (n - start)"
    have f: "l1 \<le> force" "1 \<le> force" "start + force \<le> n" using True dc assms(1) by (auto simp: force_def)
    obtain ys2 c2 where bis2: "binaryInsertionSort mv cmp start (start + force) (xs1, c1) = (ys2, c2)"
      by (cases "binaryInsertionSort mv cmp start (start + force) (xs1, c1)") auto
    have "nextRun mv cmp n minRun start (xs, c) = (ys2, force, c2)"
      using True d bis2 by (simp add: nextRun.simps Let_def force_def)
    with assms(3) have r: "runLen = force" and "ys = ys2" "c' = c2" by simp_all
    with bis2 have bis: "binaryInsertionSort mv cmp start (start + force) (xs1, c1) = (ys, c')" by simp
    have l1: "length xs1 = length xs" using dc by (simp add: permuted_within_def)
    have "start < start + force" "start + force \<le> length xs1" using f assms(2) l1 by simp_all
    note b2 = binaryInsertionSort_correct[OF this bis assms(4)]
    have "permuted_within start (start + l1) xs xs1" using dc by simp
    then have b1: "permuted_within start (start + force) xs xs1"
      by (rule permuted_within_widen) (use f in simp_all)
    have "permuted_within start (start + force) xs ys"
      using b1 b2 permuted_within_trans[of start "start + force" xs xs1 ys] by simp
    with b2 show ?thesis using r f by simp
  qed
qed

section \<open>The loops of the driver keep the runs sorted\<close>

subsection \<open>Merging the two topmost runs\<close>

lemma mergeRuns_permuted:
  assumes "start \<le> mid" "mid \<le> end'" "end' \<le> length arr"
    and "mergeRuns mv cmp start mid end' (arr, buffer, c) = (arr', buffer', c')"
  shows "permuted_within start end' arr arr'"
    and "slice arr' start end' = merge_lists cmp (slice arr start mid) (slice arr mid end')"
proof -
  let ?m = "merge_lists cmp (slice arr start mid) (slice arr mid end')"
  have a: "arr' = take start arr @ ?m @ drop end' arr"
    using mergeRuns_correct[OF assms] .
  have "mset ?m = mset (slice arr start mid @ slice arr mid end')"
    by (simp add: mset_merge_lists)
  then have m: "mset ?m = mset (slice arr start end')"
    using assms(1,2) by (simp only: slice_append)
  have se: "start \<le> end'" using assms(1,2) by simp
  show "permuted_within start end' arr arr'"
    unfolding a using se assms(3) m by (rule permuted_within_replace)
  have "length ?m = end' - start" using assms(1,2,3) by (simp add: length_merge_lists)
  with se assms(3) show "slice arr' start end' = ?m"
    unfolding a by (intro slice_replace_mid) auto
qed

lemma runs_sorted_append:
  "runs_sorted cmp xs (rs @ rs') \<longleftrightarrow> runs_sorted cmp xs rs \<and> runs_sorted cmp xs rs'"
  by (simp add: runs_sorted_def)

lemma runs_sorted_single:
  "runs_sorted cmp xs [r] \<longleftrightarrow> nondecreasing cmp (slice xs (run_start r) (run_start r + run_length r))"
  by (simp add: runs_sorted_def)

lemma runs_sorted_unchanged:
  assumes "runs_sorted cmp xs rs" "runs_from s rs m" "permuted_within m b xs ys"
  shows "runs_sorted cmp ys rs"
proof -
  have "slice ys (run_start r) (run_start r + run_length r) = slice xs (run_start r) (run_start r + run_length r)"
    if "r \<in> set rs" for r
    using runs_from_member[OF assms(2) that] assms(3) by (intro permuted_within_slice_before) auto
  with assms(1) show ?thesis by (simp add: runs_sorted_def list_all_iff)
qed

lemma mergeTop_unfold:
  "mergeTop mv cmp (xs, buffer, rs0 @ [r1, r2], c) =
     (case mergeRuns mv cmp (run_start r1) (run_start r1 + run_length r1)
             (run_start r1 + run_length r1 + run_length r2) (xs, buffer, c) of
        (xs1, buffer1, c1) \<Rightarrow>
          (xs1, buffer1, rs0 @ [\<lparr>run_start = run_start r1, run_length = run_length r1 + run_length r2\<rparr>], c1))"
  by (simp add: Let_def butlast_append)

lemma mergeTop_inv:
  assumes "strict_weak_order cmp" "sort_inv cmp xs0 e (xs, buffer, runStack, c)" "length runStack > 1"
  shows "sort_inv cmp xs0 e (mergeTop mv cmp (xs, buffer, runStack, c))"
proof -
  from assms(3) obtain rs0 r1 r2 where rs: "runStack = rs0 @ [r1, r2]" by (rule two_top)
  define s l1 l2 where "s = run_start r1" and "l1 = run_length r1" and "l2 = run_length r2"
  obtain xs' buffer' c' where
    mr: "mergeRuns mv cmp s (s + l1) (s + l1 + l2) (xs, buffer, c) = (xs', buffer', c')"
    by (cases "mergeRuns mv cmp s (s + l1) (s + l1 + l2) (xs, buffer, c)") auto
  define r where "r = \<lparr>run_start = s, run_length = l1 + l2\<rparr>"
  have mt: "mergeTop mv cmp (xs, buffer, runStack, c) = (xs', buffer', rs0 @ [r], c')"
    unfolding rs mergeTop_unfold using mr by (simp add: s_def l1_def l2_def r_def)
  from assms(2) have len: "length xs = length xs0" and ms: "mset xs = mset xs0"
    and e: "e \<le> length xs0" and rf: "runs_from 0 runStack e" and srt: "runs_sorted cmp xs runStack"
    by simp_all
  from rf obtain m where m: "runs_from 0 rs0 m" "runs_from m [r1, r2] e"
    unfolding rs runs_from_append by blast
  from m(2) have ms': "m = s" and r2: "run_start r2 = s + l1" and ee: "e = s + l1 + l2"
    by (simp_all add: s_def l1_def l2_def)
  have rf0: "runs_from 0 rs0 s" using m(1) ms' by simp
  have b: "s \<le> s + l1" "s + l1 \<le> s + l1 + l2" "s + l1 + l2 \<le> length xs"
    using e ee len by simp_all
  note p = mergeRuns_permuted[OF b mr]
  have i1: "length xs' = length xs0" using p(1) len by (simp add: permuted_within_def)
  have "s \<le> s + l1 + l2" by simp
  from permuted_within_mset[OF p(1) this] ms have i2: "mset xs' = mset xs0" by simp
  have "runs_from s [r] e" unfolding r_def using ee by simp
  with rf0 have i3: "runs_from 0 (rs0 @ [r]) e" unfolding runs_from_append by blast
  have "runs_sorted cmp xs rs0" using srt unfolding rs runs_sorted_append by simp
  then have i4: "runs_sorted cmp xs' rs0" using rf0 p(1) by (rule runs_sorted_unchanged)
  have "runs_sorted cmp xs [r1, r2]" using srt unfolding rs runs_sorted_append by simp
  then have "nondecreasing cmp (slice xs s (s + l1))" "nondecreasing cmp (slice xs (s + l1) (s + l1 + l2))"
    using r2 by (simp_all add: runs_sorted_def s_def l1_def l2_def)
  from nondecreasing_merge_lists[OF assms(1) this] p(2)
  have "nondecreasing cmp (slice xs' s (s + l1 + l2))" by simp
  then have i5: "runs_sorted cmp xs' [r]" by (simp add: runs_sorted_single r_def add.assoc)
  from i4 i5 have "runs_sorted cmp xs' (rs0 @ [r])" unfolding runs_sorted_append by simp
  with i1 i2 i3 e show ?thesis unfolding mt by simp
qed

lemma mergeCollapse_inv:
  "strict_weak_order cmp \<Longrightarrow> sort_inv cmp xs0 e s \<Longrightarrow> sort_inv cmp xs0 e (mergeCollapse mv cmp s)"
proof (induction mv cmp s rule: mergeCollapse.induct)
  case (1 mv cmp xs buffer runStack c)
  show ?case
  proof (cases "length runStack > 1 \<and> shouldMerge runStack")
    case True
    then have "mergeCollapse mv cmp (xs, buffer, runStack, c) =
               mergeCollapse mv cmp (mergeTop mv cmp (xs, buffer, runStack, c))"
      by (subst mergeCollapse.simps) simp
    moreover have "sort_inv cmp xs0 e (mergeTop mv cmp (xs, buffer, runStack, c))"
      using 1(2,3) True by (intro mergeTop_inv) auto
    ultimately show ?thesis using 1(1)[OF _ _ 1(2)] True by simp
  next
    case False
    then have "mergeCollapse mv cmp (xs, buffer, runStack, c) = (xs, buffer, runStack, c)"
      by (subst mergeCollapse.simps) auto
    with 1(3) show ?thesis by simp
  qed
qed

lemma mergeForce_inv:
  "strict_weak_order cmp \<Longrightarrow> sort_inv cmp xs0 e s \<Longrightarrow> sort_inv cmp xs0 e (mergeForce mv cmp s)"
proof (induction mv cmp s rule: mergeForce.induct)
  case (1 mv cmp xs buffer runStack c)
  show ?case
  proof (cases "length runStack > 1")
    case True
    then have "mergeForce mv cmp (xs, buffer, runStack, c) =
               mergeForce mv cmp (mergeTop mv cmp (xs, buffer, runStack, c))"
      by (subst mergeForce.simps) simp
    moreover have "sort_inv cmp xs0 e (mergeTop mv cmp (xs, buffer, runStack, c))"
      using 1(2,3) True by (intro mergeTop_inv) auto
    ultimately show ?thesis using 1(1)[OF _ 1(2)] True by simp
  next
    case False
    then have "mergeForce mv cmp (xs, buffer, runStack, c) = (xs, buffer, runStack, c)"
      by (subst mergeForce.simps) auto
    with 1(3) show ?thesis by simp
  qed
qed

lemma mergeForce_stack:
  "length (fst (snd (snd (mergeForce mv cmp s)))) \<le> 1"
proof (induction mv cmp s rule: mergeForce.induct)
  case (1 mv cmp xs buffer runStack c)
  show ?case
  proof (cases "length runStack > 1")
    case True
    with 1 show ?thesis by (subst mergeForce.simps) simp
  next
    case False
    then show ?thesis by (subst mergeForce.simps) simp
  qed
qed

subsection \<open>The outer loop\<close>

lemma push_inv:
  assumes "sort_inv cmp xs0 start (xs, buffer, runStack, c)" "start < n" "n \<le> length xs0"
    and "nextRun mv cmp n minRun start (xs, c) = (xs1, runLen, c1)"
    and "strict_weak_order cmp" "\<forall>x. mv x = x"
  shows "sort_inv cmp xs0 (start + runLen)
           (xs1, buffer, runStack @ [\<lparr>run_start = start, run_length = runLen\<rparr>], c1)"
proof -
  from assms(1) have len: "length xs = length xs0" and ms: "mset xs = mset xs0"
    and rf: "runs_from 0 runStack start" and srt: "runs_sorted cmp xs runStack"
    by simp_all
  have nl: "n \<le> length xs" using assms(3) len by simp
  note nr = nextRun_correct[OF assms(2) nl assms(4) assms(6)]
  then have p: "permuted_within start (start + runLen) xs xs1" by simp
  have "length xs1 = length xs0" using p len by (simp add: permuted_within_def)
  moreover have "mset xs1 = mset xs0" using permuted_within_mset[OF p] ms by simp
  moreover have "runs_from 0 (runStack @ [\<lparr>run_start = start, run_length = runLen\<rparr>]) (start + runLen)"
    using rf by (simp add: runs_from_append)
  moreover have "runs_sorted cmp xs1 runStack"
    using srt rf p by (rule runs_sorted_unchanged)
  moreover have "runs_sorted cmp xs1 [\<lparr>run_start = start, run_length = runLen\<rparr>]"
    using nr assms(5) by (simp add: runs_sorted_single)
  moreover have "start + runLen \<le> length xs0" using nr assms(3) by simp
  ultimately show ?thesis by (simp add: runs_sorted_append)
qed

lemma scanRuns_inv:
  "strict_weak_order cmp \<Longrightarrow> \<forall>x. mv x = x \<Longrightarrow> n \<le> length xs0 \<Longrightarrow> start \<le> n
     \<Longrightarrow> sort_inv cmp xs0 start s
     \<Longrightarrow> sort_inv cmp xs0 n (scanRuns mv cmp n minRun start s)"
proof (induction mv cmp n minRun start s rule: scanRuns.induct)
  case (1 mv cmp n minRun start xs buffer runStack c)
  note swo = 1(2) and mvid = 1(3) and nl = 1(4) and sn = 1(5) and inv = 1(6)
  show ?case
  proof (cases "start < n")
    case False
    then have "scanRuns mv cmp n minRun start (xs, buffer, runStack, c) = (xs, buffer, runStack, c)"
      by (subst scanRuns.simps) simp
    moreover from False sn have "start = n" by simp
    ultimately show ?thesis using inv by simp
  next
    case True
    obtain xs1 runLen c1 where nr: "nextRun mv cmp n minRun start (xs, c) = (xs1, runLen, c1)"
      by (cases "nextRun mv cmp n minRun start (xs, c)") auto
    define s1 where "s1 = mergeCollapse mv cmp
       (xs1, buffer, runStack @ [\<lparr>run_start = start, run_length = runLen\<rparr>], c1)"
    have e: "scanRuns mv cmp n minRun start (xs, buffer, runStack, c)
              = scanRuns mv cmp n minRun (start + runLen) s1"
      using True nr by (subst scanRuns.simps) (simp add: s1_def)
    have "sort_inv cmp xs0 (start + runLen)
           (xs1, buffer, runStack @ [\<lparr>run_start = start, run_length = runLen\<rparr>], c1)"
      using inv True nl nr swo mvid by (rule push_inv)
    then have i1: "sort_inv cmp xs0 (start + runLen) s1"
      unfolding s1_def using swo by (intro mergeCollapse_inv)
    have b: "start + runLen \<le> n" using nextRun_bounds[OF True nr] by simp
    from 1(1)[OF True nr[symmetric] refl refl s1_def swo mvid nl b i1] e
    show ?thesis by simp
  qed
qed

lemma driver_sorts:
  assumes "strict_weak_order cmp" "\<forall>x. mv x = x" "0 < n" "n \<le> length xs"
    and "mergeForce mv cmp (scanRuns mv cmp n minRun 0 (xs, [], [], 0)) = (ys, buf, rs, k)"
  shows "nondecreasing cmp (slice ys 0 n) \<and> mset ys = mset xs \<and> length ys = length xs"
proof -
  have "sort_inv cmp xs 0 (xs, [], [], 0)" by (simp add: runs_sorted_def)
  with assms(1,2,4) have "sort_inv cmp xs n (scanRuns mv cmp n minRun 0 (xs, [], [], 0))"
    by (intro scanRuns_inv) auto
  with assms(1) have "sort_inv cmp xs n (mergeForce mv cmp (scanRuns mv cmp n minRun 0 (xs, [], [], 0)))"
    by (intro mergeForce_inv)
  with assms(5) have i: "length ys = length xs" "mset ys = mset xs" "runs_from 0 rs n" "runs_sorted cmp ys rs"
    by simp_all
  have "length rs \<le> 1"
    using mergeForce_stack[of mv cmp "scanRuns mv cmp n minRun 0 (xs, [], [], 0)"] assms(5) by simp
  moreover have "rs \<noteq> []" using i(3) assms(3) by auto
  ultimately obtain r where rs: "rs = [r]" by (cases rs) auto
  with i(3) have "run_start r = 0" "run_length r = n" by auto
  with i(4) rs have "nondecreasing cmp (slice ys 0 n)" by (simp add: runs_sorted_single)
  with i(1,2) show ?thesis by simp
qed


lemma timsortImpl_prefix_sorted:
  assumes "strict_weak_order cmp" "\<forall>x. mv x = x"
  shows "length (fst (timsortImpl mv cmp xs)) = length xs \<and>
         mset (fst (timsortImpl mv cmp xs)) = mset xs \<and>
         (1 < to_int32 (int (length xs)) \<longrightarrow>
            nondecreasing cmp (slice (fst (timsortImpl mv cmp xs)) 0 (nat (to_int32 (int (length xs))))))"
proof (cases "to_int32 (int (length xs)) \<le> 1")
  case True
  then show ?thesis by (simp add: timsortImpl_def)
next
  case False
  define n where "n = to_int32 (int (length xs))"
  obtain ys buf rs k where
    f: "mergeForce mv cmp (scanRuns mv cmp (nat n) (nat (minRunLength n)) 0 (xs, [], [], 0)) = (ys, buf, rs, k)"
    by (cases "mergeForce mv cmp (scanRuns mv cmp (nat n) (nat (minRunLength n)) 0 (xs, [], [], 0))") auto
  with False have r: "fst (timsortImpl mv cmp xs) = ys"
    by (simp add: timsortImpl_def Let_def n_def)
  have "0 < nat n" using False by (simp add: n_def)
  moreover have "nat n \<le> length xs" using to_int32_le[of "int (length xs)"] by (simp add: n_def)
  ultimately show ?thesis using driver_sorts[OF assms _ _ f] r by (simp add: n_def)
qed


section \<open>The whole sort\<close>

subsection \<open>A vector that is already in order\<close>

lemma ascending_run_whole:
  assumes "\<forall>i. runLen \<le> i \<and> start + i < n \<longrightarrow> \<not> cmp (xs ! (start + i)) (xs ! (start + i - 1))"
    and "start + runLen \<le> n"
  shows "fst (ascending_run cmp xs n start runLen c) = n - start"
  using assms
proof (induction cmp xs n start runLen c rule: ascending_run.induct)
  case (1 cmp xs n start runLen c)
  show ?case
  proof (cases "start + runLen < n")
    case False
    with 1(3) have "runLen = n - start" by simp
    moreover from False have "ascending_run cmp xs n start runLen c = (runLen, c)"
      by (subst ascending_run.simps) simp
    ultimately show ?thesis by simp
  next
    case True
    with 1(2) have nc: "\<not> cmp (xs ! (start + runLen)) (xs ! (start + runLen - 1))" by simp
    with True have "ascending_run cmp xs n start runLen c
                     = ascending_run cmp xs n start (runLen + 1) (c + 1)"
      by (subst ascending_run.simps) simp
    moreover have "fst (ascending_run cmp xs n start (runLen + 1) (c + 1)) = n - start"
      using True nc 1(2) by (intro 1(1)) auto
    ultimately show ?thesis by simp
  qed
qed

lemma minRunLength_small: "n < MIN_MERGE \<Longrightarrow> minRunLength n = n"
  by (simp add: minRunLength_def minRunLength_loop.simps[of 0 n])

lemma minRunLength_le:
  assumes "0 \<le> n"
  shows "0 \<le> minRunLength n \<and> minRunLength n \<le> n"
proof (cases "n < MIN_MERGE")
  case True
  with assms show ?thesis by (simp add: minRunLength_small)
next
  case False
  then have "MIN_MERGE \<le> n" by simp
  from minRunLength_char[OF this] False show ?thesis by (simp add: MIN_MERGE_def)
qed

lemma timsortImpl_sorted_input:
  assumes "1 < to_int32 (int (length xs))
             \<longrightarrow> nondecreasing cmp (slice xs 0 (nat (to_int32 (int (length xs)))))"
  shows "fst (timsortImpl mv cmp xs) = xs"
proof (cases "to_int32 (int (length xs)) \<le> 1")
  case True
  then show ?thesis by (simp add: timsortImpl_def)
next
  case False
  define N where "N = to_int32 (int (length xs))"
  define n where "n = nat N"
  define minRun where "minRun = nat (minRunLength N)"
  have N1: "1 < N" using False by (simp add: N_def)
  have n2: "1 < n" using N1 by (simp add: n_def)
  have nl: "n \<le> length xs" using to_int32_le[of "int (length xs)"] by (simp add: n_def N_def)
  have srt: "nondecreasing cmp (slice xs 0 n)" using assms N1 by (simp add: n_def N_def)
  have adj: "\<not> cmp (xs ! i) (xs ! (i - 1))" if "1 \<le> i" "i < n" for i
  proof -
    have "\<not> cmp (slice xs 0 n ! i) (slice xs 0 n ! (i - 1))"
      using that nl by (intro nondecreasing_nth[OF srt]) auto
    moreover have "slice xs 0 n ! i = xs ! (0 + i)" "slice xs 0 n ! (i - 1) = xs ! (0 + (i - 1))"
      using that nl by (intro slice_nth; simp)+
    ultimately show ?thesis by simp
  qed
  obtain k c1 where a: "ascending_run cmp xs n 0 1 (0 + 1) = (k, c1)"
    by (cases "ascending_run cmp xs n 0 1 (0 + 1)") auto
  have "fst (ascending_run cmp xs n 0 1 (0 + 1)) = n - 0"
    using adj n2 by (intro ascending_run_whole) auto
  with a have k: "k = n" by simp
  have "\<not> cmp (xs ! (0 + 1)) (xs ! 0)" using adj[of 1] n2 by simp
  with n2 a k have d: "detectRun cmp n 0 (xs, 0) = (xs, n, c1)"
    by (simp add: detectRun.simps)
  have "minRun \<le> n" using minRunLength_le[of N] N1 unfolding minRun_def n_def by linarith
  with d have nr: "nextRun mv cmp n minRun 0 (xs, 0) = (xs, n, c1)"
    by (simp add: nextRun.simps)
  let ?st = "(xs, [], [\<lparr>run_start = 0, run_length = n\<rparr>], c1)"
  have mc: "mergeCollapse mv cmp ?st = ?st" by (subst mergeCollapse.simps) simp
  have "scanRuns mv cmp n minRun 0 (xs, [], [], 0) = scanRuns mv cmp n minRun (0 + n) ?st"
    using n2 nr mc by (subst scanRuns.simps) simp
  also have "\<dots> = ?st" by (subst scanRuns.simps) simp
  finally have sc: "scanRuns mv cmp n minRun 0 (xs, [], [], 0) = ?st" .
  have mf: "mergeForce mv cmp ?st = ?st" by (subst mergeForce.simps) simp
  have "timsortImpl mv cmp xs =
          (case mergeForce mv cmp (scanRuns mv cmp n minRun 0 (xs, [], [], 0)) of
             (xs1, buffer1, runStack1, c1) \<Rightarrow> (xs1, c1))"
    using N1 by (simp add: timsortImpl_def Let_def N_def n_def minRun_def)
  then show ?thesis by (simp add: sc mf)
qed

lemma timsortImpl_idempotent:
  assumes "strict_weak_order cmp" "\<forall>x. mv x = x"
  shows "fst (timsortImpl mv cmp (fst (timsortImpl mv cmp xs))) = fst (timsortImpl mv cmp xs)"
proof -
  note p = timsortImpl_prefix_sorted[OF assms, of xs]
  show ?thesis by (rule timsortImpl_sorted_input) (use p in simp)
qed

subsection \<open>The transition system runs the loops\<close>

lemma mergeCollapse_steps:
  "(timsort_step mv cmp n minRun)\<^sup>*\<^sup>* (Collapse a l, s) (Collapse a l, mergeCollapse mv cmp s) \<and>
   \<not> (length (fst (snd (snd (mergeCollapse mv cmp s)))) > 1 \<and> shouldMerge (fst (snd (snd (mergeCollapse mv cmp s)))))"
proof (induction mv cmp s rule: mergeCollapse.induct)
  case (1 mv cmp xs buffer runStack c)
  show ?case
  proof (cases "length runStack > 1 \<and> shouldMerge runStack")
    case True
    then have e: "mergeCollapse mv cmp (xs, buffer, runStack, c) =
               mergeCollapse mv cmp (mergeTop mv cmp (xs, buffer, runStack, c))"
      by (subst mergeCollapse.simps) simp
    have "timsort_step mv cmp n minRun (Collapse a l, xs, buffer, runStack, c)
            (Collapse a l, mergeTop mv cmp (xs, buffer, runStack, c))"
      using True by (intro timsort_step.merge) auto
    with 1 True show ?thesis unfolding e by (meson converse_rtranclp_into_rtranclp)
  next
    case False
    then have "mergeCollapse mv cmp (xs, buffer, runStack, c) = (xs, buffer, runStack, c)"
      by (subst mergeCollapse.simps) auto
    with False show ?thesis by simp
  qed
qed

lemma mergeForce_steps:
  "(timsort_step mv cmp n minRun)\<^sup>*\<^sup>* (Drain, s) (Drain, mergeForce mv cmp s)"
proof (induction mv cmp s rule: mergeForce.induct)
  case (1 mv cmp xs buffer runStack c)
  show ?case
  proof (cases "length runStack > 1")
    case True
    then have e: "mergeForce mv cmp (xs, buffer, runStack, c) =
               mergeForce mv cmp (mergeTop mv cmp (xs, buffer, runStack, c))"
      by (subst mergeForce.simps) simp
    have "timsort_step mv cmp n minRun (Drain, xs, buffer, runStack, c)
            (Drain, mergeTop mv cmp (xs, buffer, runStack, c))"
      using True by (intro timsort_step.drain)
    with 1 True show ?thesis unfolding e by (meson converse_rtranclp_into_rtranclp)
  next
    case False
    then have "mergeForce mv cmp (xs, buffer, runStack, c) = (xs, buffer, runStack, c)"
      by (subst mergeForce.simps) auto
    then show ?thesis by simp
  qed
qed

lemma scanRuns_steps:
  "\<exists>start'. \<not> start' < n \<and>
     (timsort_step mv cmp n minRun)\<^sup>*\<^sup>* (Scan start, s) (Scan start', scanRuns mv cmp n minRun start s)"
proof (induction mv cmp n minRun start s rule: scanRuns.induct)
  case (1 mv cmp n minRun start xs buffer runStack c)
  show ?case
  proof (cases "start < n")
    case False
    then have "scanRuns mv cmp n minRun start (xs, buffer, runStack, c) = (xs, buffer, runStack, c)"
      by (subst scanRuns.simps) simp
    with False show ?thesis by (intro exI[of _ start]) simp
  next
    case True
    obtain xs1 runLen c1 where nr: "nextRun mv cmp n minRun start (xs, c) = (xs1, runLen, c1)"
      by (cases "nextRun mv cmp n minRun start (xs, c)") auto
    define s0 where "s0 = (xs1, buffer, runStack @ [\<lparr>run_start = start, run_length = runLen\<rparr>], c1)"
    define s1 where "s1 = mergeCollapse mv cmp s0"
    have e: "scanRuns mv cmp n minRun start (xs, buffer, runStack, c)
              = scanRuns mv cmp n minRun (start + runLen) s1"
      using True nr by (subst scanRuns.simps) (simp add: s1_def s0_def)
    have st1: "timsort_step mv cmp n minRun (Scan start, xs, buffer, runStack, c) (Collapse start runLen, s0)"
      unfolding s0_def using True nr by (rule timsort_step.push)
    have st2: "(timsort_step mv cmp n minRun)\<^sup>*\<^sup>* (Collapse start runLen, s0) (Collapse start runLen, s1)"
      and ex: "\<not> (length (fst (snd (snd s1))) > 1 \<and> shouldMerge (fst (snd (snd s1))))"
      using mergeCollapse_steps[of mv cmp n minRun start runLen s0] by (simp_all add: s1_def)
    obtain ys b rs k where s1': "s1 = (ys, b, rs, k)" by (cases s1) auto
    have st3: "timsort_step mv cmp n minRun (Collapse start runLen, s1) (Scan (start + runLen), s1)"
      unfolding s1' using ex s1' by (intro timsort_step.advance) simp
    from 1(1)[OF True nr[symmetric] refl refl s1_def[unfolded s0_def]]
    obtain start' where f: "\<not> start' < n"
      "(timsort_step mv cmp n minRun)\<^sup>*\<^sup>* (Scan (start + runLen), s1)
          (Scan start', scanRuns mv cmp n minRun (start + runLen) s1)" by blast
    have "(timsort_step mv cmp n minRun)\<^sup>*\<^sup>* (Scan start, xs, buffer, runStack, c)
            (Scan start', scanRuns mv cmp n minRun (start + runLen) s1)"
      using st1 st2 st3 f(2)
      by (meson converse_rtranclp_into_rtranclp rtranclp_trans r_into_rtranclp)
    with f(1) e show ?thesis by auto
  qed
qed

lemma timsortImpl_reaches:
  assumes "1 < to_int32 (int (length xs))"
  shows "\<exists>buffer runStack. length runStack \<le> 1 \<and>
     (timsort_step mv cmp (nat (to_int32 (int (length xs))))
        (nat (minRunLength (to_int32 (int (length xs))))))\<^sup>*\<^sup>*
       (Scan 0, xs, [], [], 0)
       (Drain, fst (timsortImpl mv cmp xs), buffer, runStack, snd (timsortImpl mv cmp xs))"
proof -
  let ?n = "nat (to_int32 (int (length xs)))"
  let ?minRun = "nat (minRunLength (to_int32 (int (length xs))))"
  let ?s1 = "scanRuns mv cmp ?n ?minRun 0 (xs, [], [], 0)"
  obtain ys buf rs k where f: "mergeForce mv cmp ?s1 = (ys, buf, rs, k)"
    by (cases "mergeForce mv cmp ?s1") auto
  with assms have r: "timsortImpl mv cmp xs = (ys, k)" by (simp add: timsortImpl_def Let_def)
  obtain start' where a: "\<not> start' < ?n"
    "(timsort_step mv cmp ?n ?minRun)\<^sup>*\<^sup>* (Scan 0, xs, [], [], 0) (Scan start', ?s1)"
    using scanRuns_steps[of ?n mv cmp ?minRun 0 "(xs, [], [], 0)"] by blast
  obtain ys1 b1 rs1 k1 where s1: "?s1 = (ys1, b1, rs1, k1)" by (cases ?s1) auto
  have b: "timsort_step mv cmp ?n ?minRun (Scan start', ?s1) (Drain, ?s1)"
    unfolding s1 using a(1) by (rule timsort_step.scanned)
  have c: "(timsort_step mv cmp ?n ?minRun)\<^sup>*\<^sup>* (Drain, ?s1) (Drain, ys, buf, rs, k)"
    using mergeForce_steps[of mv cmp ?n ?minRun ?s1] f by simp
  have "(timsort_step mv cmp ?n ?minRun)\<^sup>*\<^sup>* (Scan 0, xs, [], [], 0) (Drain, ys, buf, rs, k)"
    using a(2) b c by (meson rtranclp_trans r_into_rtranclp)
  moreover have "length rs \<le> 1" using mergeForce_stack[of mv cmp ?s1] f by simp
  ultimately show ?thesis using r by auto
qed

subsection \<open>Termination\<close>

lemma timsort_step_wf: "wf {(t, s). timsort_step mv cmp n minRun s t}"
proof -
  have "{(t, s). timsort_step mv cmp n minRun s t}
          \<subseteq> inv_image (less_than <*lex*> less_than <*lex*> less_than) (step_measure n)"
  proof
    fix p assume "p \<in> {(t, s). timsort_step mv cmp n minRun s t}"
    then obtain s t where p: "p = (t, s)" and st: "timsort_step mv cmp n minRun s t" by auto
    from st have "(step_measure n t, step_measure n s) \<in> less_than <*lex*> less_than <*lex*> less_than"
    proof (cases rule: timsort_step.cases)
      case (push start xs c xs1 runLen c1 buffer runStack)
      from nextRun_bounds[OF push(3,4)] push show ?thesis by auto
    next
      case (merge runStack start runLen xs buffer c)
      obtain xs' buffer' runStack' c' where
        m: "mergeTop mv cmp (xs, buffer, runStack, c) = (xs', buffer', runStack', c')"
        by (cases "mergeTop mv cmp (xs, buffer, runStack, c)") auto
      from mergeTop_stack_length[OF merge(3) m] merge(1,2) show ?thesis unfolding m by auto
    next
      case (advance runStack start runLen xs buffer c)
      then show ?thesis by auto
    next
      case (scanned start xs buffer runStack c)
      then show ?thesis by auto
    next
      case (drain runStack xs buffer c)
      obtain xs' buffer' runStack' c' where
        m: "mergeTop mv cmp (xs, buffer, runStack, c) = (xs', buffer', runStack', c')"
        by (cases "mergeTop mv cmp (xs, buffer, runStack, c)") auto
      from mergeTop_stack_length[OF drain(3) m] drain(1,2) show ?thesis unfolding m by auto
    qed
    with p show "p \<in> inv_image (less_than <*lex*> less_than <*lex*> less_than) (step_measure n)"
      by simp
  qed
  then show ?thesis
    by (rule wf_subset[rotated]) (intro wf_inv_image wf_lex_prod wf_less_than)
qed

lemma timsort_step_final:
  assumes "length runStack \<le> 1"
  shows "\<not> timsort_step mv cmp n minRun (Drain, xs, buffer, runStack, c) t"
proof
  assume "timsort_step mv cmp n minRun (Drain, xs, buffer, runStack, c) t"
  then show False using assms by cases auto
qed

text \<open>
  C10. For every predicate, every element type and every vector the driver terminates: no
  infinite sequence of transitions exists; when the length \<open>n\<close> the code works with (the
  length of the vector after the cast) is above 1, the transitions from the initial state
  reach the final state, with at most one run on the stack, that holds the result of
  \<open>timsort\<close>; and when it is at most 1, \<open>timsort\<close> returns at once. The reasons are the
  ones the code shows: from a position below \<open>n\<close> the detected run and the run pushed are
  at least one element long, so the scan position grows and stays at most \<open>n\<close>; a merge
  makes the stack one run shorter; and the final loop leaves at most one run.
\<close>

theorem timsort_terminates:
  "wf {(t, s). timsort_step mv cmp n minRun s t} \<and>
   (\<forall>start xs c. start < n \<longrightarrow>
      1 \<le> fst (snd (detectRun cmp n start (xs, c))) \<and>
      1 \<le> fst (snd (nextRun mv cmp n minRun start (xs, c))) \<and>
      start < start + fst (snd (nextRun mv cmp n minRun start (xs, c))) \<and>
      start + fst (snd (nextRun mv cmp n minRun start (xs, c))) \<le> n) \<and>
   (\<forall>xs buffer runStack c. length runStack > 1 \<longrightarrow>
      length (fst (snd (snd (mergeTop mv cmp (xs, buffer, runStack, c))))) + 1 = length runStack) \<and>
   (\<forall>s. length (fst (snd (snd (mergeForce mv cmp s)))) \<le> 1) \<and>
   (\<forall>xs. 1 < to_int32 (int (length xs)) \<longrightarrow>
      (\<exists>buffer runStack. length runStack \<le> 1 \<and>
         (timsort_step mv cmp (nat (to_int32 (int (length xs))))
            (nat (minRunLength (to_int32 (int (length xs))))))\<^sup>*\<^sup>*
            (Scan 0, xs, [], [], 0)
            (Drain, fst (timsort mv cmp xs), buffer, runStack, snd (timsort mv cmp xs)) \<and>
         (\<forall>t. \<not> timsort_step mv cmp (nat (to_int32 (int (length xs))))
                 (nat (minRunLength (to_int32 (int (length xs)))))
                 (Drain, fst (timsort mv cmp xs), buffer, runStack, snd (timsort mv cmp xs)) t))) \<and>
   (\<forall>xs. to_int32 (int (length xs)) \<le> 1 \<longrightarrow> timsort mv cmp xs = (xs, 0)) \<and>
   (\<forall>k :: nat. k < 2 ^ 31 \<longrightarrow> to_int32 (int k) = int k)"
proof (intro conjI allI impI)
  show "wf {(t, s). timsort_step mv cmp n minRun s t}" by (rule timsort_step_wf)
next
  fix start xs c assume s: "start < n"
  obtain ys l c' where d: "detectRun cmp n start (xs, c) = (ys, l, c')"
    by (cases "detectRun cmp n start (xs, c)") auto
  from detectRun_bounds[OF s d] d show "1 \<le> fst (snd (detectRun cmp n start (xs, c)))" by simp
  obtain zs l2 c2 where e: "nextRun mv cmp n minRun start (xs, c) = (zs, l2, c2)"
    by (cases "nextRun mv cmp n minRun start (xs, c)") auto
  from nextRun_bounds[OF s e] e
  show "1 \<le> fst (snd (nextRun mv cmp n minRun start (xs, c)))"
       "start < start + fst (snd (nextRun mv cmp n minRun start (xs, c)))"
       "start + fst (snd (nextRun mv cmp n minRun start (xs, c))) \<le> n" by simp_all
next
  fix xs buffer runStack c assume l: "length (runStack :: Run list) > 1"
  obtain xs' buffer' runStack' c' where
    m: "mergeTop mv cmp (xs, buffer, runStack, c) = (xs', buffer', runStack', c')"
    by (cases "mergeTop mv cmp (xs, buffer, runStack, c)") auto
  from mergeTop_stack_length[OF l m]
  show "length (fst (snd (snd (mergeTop mv cmp (xs, buffer, runStack, c))))) + 1 = length runStack"
    unfolding m by simp
next
  fix s :: "'a sort_state"
  show "length (fst (snd (snd (mergeForce mv cmp s)))) \<le> 1" by (rule mergeForce_stack)
next
  fix xs :: "'a list" assume "1 < to_int32 (int (length xs))"
  from timsortImpl_reaches[OF this, of mv cmp] obtain buffer runStack where
    r: "length runStack \<le> 1"
       "(timsort_step mv cmp (nat (to_int32 (int (length xs))))
            (nat (minRunLength (to_int32 (int (length xs))))))\<^sup>*\<^sup>*
          (Scan 0, xs, [], [], 0)
          (Drain, fst (timsortImpl mv cmp xs), buffer, runStack, snd (timsortImpl mv cmp xs))"
    by blast
  show "\<exists>buffer runStack. length runStack \<le> 1 \<and>
         (timsort_step mv cmp (nat (to_int32 (int (length xs))))
            (nat (minRunLength (to_int32 (int (length xs))))))\<^sup>*\<^sup>*
            (Scan 0, xs, [], [], 0)
            (Drain, fst (timsort mv cmp xs), buffer, runStack, snd (timsort mv cmp xs)) \<and>
         (\<forall>t. \<not> timsort_step mv cmp (nat (to_int32 (int (length xs))))
                 (nat (minRunLength (to_int32 (int (length xs)))))
                 (Drain, fst (timsort mv cmp xs), buffer, runStack, snd (timsort mv cmp xs)) t)"
    unfolding timsort_def using r timsort_step_final[OF r(1)] by blast
next
  fix xs :: "'a list" assume "to_int32 (int (length xs)) \<le> 1"
  then show "timsort mv cmp xs = (xs, 0)" by (simp add: timsort_def timsortImpl_def)
next
  fix k :: nat assume "k < 2 ^ 31"
  then show "to_int32 (int k) = int k" by (intro to_int32_id) auto
qed

theorem timsort_terminates_witness:
  "wf {(t, s). timsort_step id ((<) :: nat \<Rightarrow> nat \<Rightarrow> bool) 5 5 s t} \<and>
   1 \<le> fst (snd (nextRun id (<) 5 5 0 ([5, 3, 4, 1, 2 :: nat], 0))) \<and>
   length (fst (snd (snd (mergeTop id (<) ([1, 2, 0, 5 :: nat], [],
      [\<lparr>run_start = 0, run_length = 2\<rparr>, \<lparr>run_start = 2, run_length = 2\<rparr>], 0))))) + 1 = 2 \<and>
   length (fst (snd (snd (mergeForce id (<) ([1, 2, 0, 5 :: nat], [],
      [\<lparr>run_start = 0, run_length = 2\<rparr>, \<lparr>run_start = 2, run_length = 2\<rparr>], 0))))) \<le> 1 \<and>
   1 < to_int32 (int (length [5, 3, 4, 1, 2 :: nat])) \<and>
   (\<exists>buffer runStack. length runStack \<le> 1 \<and>
      (timsort_step id (<) (nat (to_int32 (int (length [5, 3, 4, 1, 2 :: nat]))))
         (nat (minRunLength (to_int32 (int (length [5, 3, 4, 1, 2 :: nat]))))))\<^sup>*\<^sup>*
         (Scan 0, [5, 3, 4, 1, 2 :: nat], [], [], 0)
         (Drain, fst (timsort id (<) [5, 3, 4, 1, 2 :: nat]), buffer, runStack,
          snd (timsort id (<) [5, 3, 4, 1, 2 :: nat])))"
proof -
  note t = timsort_terminates[of "id :: nat \<Rightarrow> nat" "(<) :: nat \<Rightarrow> nat \<Rightarrow> bool" 5 5]
  from t have a: "wf {(t, s). timsort_step id ((<) :: nat \<Rightarrow> nat \<Rightarrow> bool) 5 5 s t}" by (rule conjunct1)
  from t have "\<forall>start xs c. start < 5 \<longrightarrow> 1 \<le> fst (snd (nextRun id (<) 5 5 start (xs :: nat list, c)))"
    by blast
  then have b: "1 \<le> fst (snd (nextRun id (<) 5 5 0 ([5, 3, 4, 1, 2 :: nat], 0)))" by simp
  from t have c: "\<forall>xs buffer runStack c. length runStack > 1 \<longrightarrow>
      length (fst (snd (snd (mergeTop id (<) (xs :: nat list, buffer, runStack, c))))) + 1 = length runStack"
    by (intro conjunct1[OF conjunct2[OF conjunct2[OF t]]])
  from t have d: "\<forall>s. length (fst (snd (snd (mergeForce id ((<) :: nat \<Rightarrow> nat \<Rightarrow> bool) s)))) \<le> 1"
    by (intro conjunct1[OF conjunct2[OF conjunct2[OF conjunct2[OF t]]]])
  have "length [\<lparr>run_start = 0, run_length = 2\<rparr>, \<lparr>run_start = 2, run_length = 2\<rparr>] > 1" by simp
  with c have "length (fst (snd (snd (mergeTop id (<) ([1, 2, 0, 5 :: nat], [],
      [\<lparr>run_start = 0, run_length = 2\<rparr>, \<lparr>run_start = 2, run_length = 2\<rparr>], 0))))) + 1
      = length [\<lparr>run_start = 0, run_length = 2\<rparr>, \<lparr>run_start = 2, run_length = 2\<rparr>]"
    by blast
  then have c': "length (fst (snd (snd (mergeTop id (<) ([1, 2, 0, 5 :: nat], [],
      [\<lparr>run_start = 0, run_length = 2\<rparr>, \<lparr>run_start = 2, run_length = 2\<rparr>], 0))))) + 1 = 2"
    by simp
  from d have d': "length (fst (snd (snd (mergeForce id (<) ([1, 2, 0, 5 :: nat], [],
      [\<lparr>run_start = 0, run_length = 2\<rparr>, \<lparr>run_start = 2, run_length = 2\<rparr>], 0))))) \<le> 1"
    by blast
  have h: "1 < to_int32 (int (length [5, 3, 4, 1, 2 :: nat]))" by (simp add: to_int32_def)
  from t have "\<forall>xs :: nat list. 1 < to_int32 (int (length xs)) \<longrightarrow>
      (\<exists>buffer runStack. length runStack \<le> 1 \<and>
         (timsort_step id (<) (nat (to_int32 (int (length xs))))
            (nat (minRunLength (to_int32 (int (length xs))))))\<^sup>*\<^sup>*
            (Scan 0, xs, [], [], 0)
            (Drain, fst (timsort id (<) xs), buffer, runStack, snd (timsort id (<) xs)) \<and>
         (\<forall>t. \<not> timsort_step id (<) (nat (to_int32 (int (length xs))))
                 (nat (minRunLength (to_int32 (int (length xs)))))
                 (Drain, fst (timsort id (<) xs), buffer, runStack, snd (timsort id (<) xs)) t))"
    by (intro conjunct1[OF conjunct2[OF conjunct2[OF conjunct2[OF conjunct2[OF t]]]]])
  with h have e: "\<exists>buffer runStack. length runStack \<le> 1 \<and>
      (timsort_step id (<) (nat (to_int32 (int (length [5, 3, 4, 1, 2 :: nat]))))
         (nat (minRunLength (to_int32 (int (length [5, 3, 4, 1, 2 :: nat]))))))\<^sup>*\<^sup>*
         (Scan 0, [5, 3, 4, 1, 2 :: nat], [], [], 0)
         (Drain, fst (timsort id (<) [5, 3, 4, 1, 2 :: nat]), buffer, runStack,
          snd (timsort id (<) [5, 3, 4, 1, 2 :: nat]))"
    by blast
  show ?thesis by (intro conjI a b c' d' h e)
qed

subsection \<open>Sortedness, permutation and idempotence\<close>




text \<open>
  On three pairs of a number and a string, (1, a), (1, b), (0, c), ordered by the
  number, the insertion sort moves the second pair out of its cell, finds that it stays
  where it is, and does not write it back: the string of that pair is lost.
\<close>

lemma timsort_keyed_strings_lost:
  "timsort mv_keyed by_key [(1, ''a''), (1, ''b''), (0, ''c'')]
     = ([(0, ''c''), (1, ''a''), (1, [])], 6)"
  by code_simp

lemma string_less_strict_weak_order: "strict_weak_order string_less"
proof -
  have a: "\<And>x. \<not> string_less x x" by (simp add: string_less_def)
  have b: "\<And>x y z. string_less x y \<Longrightarrow> string_less y z \<Longrightarrow> string_less x z"
    unfolding string_less_def by (rule less_trans)
  have c: "\<And>x y. \<not> string_less x y \<Longrightarrow> \<not> string_less y x
             \<Longrightarrow> map of_char x = (map of_char y :: nat list)"
    unfolding string_less_def by (rule antisym) simp_all
  have d: "\<And>x y z. \<not> string_less x y \<Longrightarrow> \<not> string_less y x \<Longrightarrow> \<not> string_less y z
             \<Longrightarrow> \<not> string_less z y \<Longrightarrow> \<not> string_less x z \<and> \<not> string_less z x"
  proof -
    fix x y z
    assume h: "\<not> string_less x y" "\<not> string_less y x" "\<not> string_less y z" "\<not> string_less z y"
    from c[OF h(1,2)] c[OF h(3,4)] show "\<not> string_less x z \<and> \<not> string_less z x"
      by (simp add: string_less_def)
  qed
  show ?thesis unfolding strict_weak_order_def using a b d by blast
qed

lemma timsort_idempotent_trivial_move:
  assumes "strict_weak_order cmp" "\<forall>x. mv x = x"
  shows "fst (timsort mv cmp (fst (timsort mv cmp xs))) = fst (timsort mv cmp xs)"
  using timsortImpl_idempotent[OF assms] by (simp add: timsort_def)

text \<open>
  C9, on three strings. The order of strings is a strict weak ordering
  (\<open>string_less_strict_weak_order\<close>). \<open>timsort\<close> of the strings a, c, b leaves a and two
  empty strings, and \<open>timsort\<close> of that leaves three empty strings: sorting twice is not
  sorting once. Each time the insertion sort moves an element out of its cell, finds that
  it stays where it is, and does not write it back. For an element type that a move leaves
  unchanged sorting twice is sorting once (\<open>timsort_idempotent_trivial_move\<close>).
\<close>

theorem timsort_twice_strings:
  "fst (timsort mv_string string_less [''a'', ''c'', ''b'']) = [''a'', [], []] \<and>
   fst (timsort mv_string string_less (fst (timsort mv_string string_less [''a'', ''c'', ''b''])))
     = [[], [], []]"
proof -
  have a: "fst (timsort mv_string string_less [''a'', ''c'', ''b'']) = [''a'', [], []]"
    by code_simp
  have b: "fst (timsort mv_string string_less [''a'', [], []]) = [[], [], []]"
    by code_simp
  show ?thesis unfolding a using a b by simp
qed

section \<open>Ties in the merge\<close>

text \<open>
  C3, at a tie. \<^verbatim>\<open>mergeRuns\<close> on the two one-element ranges \<open>(1, a)\<close> and \<open>(1, b)\<close>, which
  compare equal by their keys: the predicate is false of the right head over the left head,
  and the code places the right element first, whatever a move leaves in its source.
\<close>

theorem mergeRuns_tie_right_first:
  "fst (mergeRuns mv by_key 0 1 2 ([(1, ''a''), (1, ''b'')], [], 0)) = [(1, ''b''), (1, ''a'')]"
  by code_simp

lemma by_key_strict_weak_order: "strict_weak_order by_key"
  by (auto simp: strict_weak_order_def by_key_def)

text \<open>
  C2, on the 32 pairs of \<open>tie_input\<close>. The ordering by keys is a strict weak ordering
  (\<open>by_key_strict_weak_order\<close>), the pairs at the input positions 0 and 17 both have
  key 1, and in the output of \<open>timsort\<close> the pair from position 17 is at position 1 and
  the pair from position 0 at position 16: the two have changed their order.
\<close>

theorem timsort_tie_input_reordered:
  "tie_input ! 0 = (1, 0) \<and> tie_input ! 17 = (1, 17) \<and>
   \<not> by_key (1 :: nat, 0 :: nat) (1, 17 :: nat) \<and> \<not> by_key (1 :: nat, 17 :: nat) (1, 0 :: nat) \<and>
   fst (timsort (\<lambda>x. x) by_key tie_input) ! 1 = (1, 17) \<and>
   fst (timsort (\<lambda>x. x) by_key tie_input) ! 16 = (1, 0)"
proof -
  have "fst (timsort (\<lambda>x. x) by_key tie_input) =
     (0, 16) # map (\<lambda>i. (1, i)) [17..<32] @ map (\<lambda>i. (1, i)) [0..<16]"
    by code_simp
  moreover have "tie_input ! 0 = (1, 0)" "tie_input ! 17 = (1, 17)" by code_simp+
  moreover have "((0, 16) # map (\<lambda>i. (1, i)) [17..<32] @ map (\<lambda>i. (1, i)) [0..<16]) ! 1 = (1 :: nat, 17 :: nat)"
    "((0, 16) # map (\<lambda>i. (1, i)) [17..<32] @ map (\<lambda>i. (1, i)) [0..<16]) ! 16 = (1 :: nat, 0 :: nat)"
    by code_simp+
  ultimately show ?thesis by (simp add: by_key_def)
qed

end
